theory Spec2Isabelle
  imports Complex_Main
begin

section \<open>Data model of the solver in gtp_connection.py\<close>

text \<open>
  The solver of \<^verbatim>\<open>gtp_connection.py\<close> is the top-level function \<^verbatim>\<open>Minimax\<close> and the
  mutually recursive \<^verbatim>\<open>MinimaxBooleanOR\<close> / \<^verbatim>\<open>MinimaxBooleanAND\<close>, which work on the
  module-level globals \<^verbatim>\<open>stack\<close>, \<^verbatim>\<open>debug\<close> and \<^verbatim>\<open>TIME_LIMIT\<close>, read the wall clock and
  print to standard output.

  Colour codes are the constants imported from \<^verbatim>\<open>board_util\<close>; a Python colour value is
  a \<open>color option\<close>, where \<open>None\<close> is Python's \<^verbatim>\<open>None\<close> (what \<^verbatim>\<open>opposite_color\<close> returns
  when its argument is neither BLACK nor WHITE).
\<close>

datatype color = EMPTY | BLACK | WHITE | BORDER

datatype error = IndexError

datatype printed = PrintStr string | PrintInt int | PrintFloat real

type_synonym verdict = "bool \<times> color option \<times> int"

text \<open>
  The board class and \<^verbatim>\<open>GoBoardUtil\<close> are collaborators that live outside this file;
  their operations are parameters of the model. \<^verbatim>\<open>play_move_gomoku\<close> changes the board
  in place; here it returns the changed board. \<^verbatim>\<open>StatisticallyEvaluate\<close> is called either
  with the argument \<^verbatim>\<open>False\<close> (\<open>Some False\<close>) or with no argument (\<open>None\<close>).
\<close>

record 'b game =
  generate_legal_moves_gomoku :: "'b \<Rightarrow> nat list"
  play_move_gomoku :: "'b \<Rightarrow> nat \<Rightarrow> color option \<Rightarrow> 'b"
  check_game_end_gomoku :: "'b \<Rightarrow> bool \<times> color option"
  StatisticallyEvaluate :: "'b \<Rightarrow> bool option \<Rightarrow> verdict"

text \<open>
  The mutable state: the three module globals, the standard output, and the wall clock.
  The clock is a sequence of readings; \<open>ticks\<close> counts the calls of \<^verbatim>\<open>time.time()\<close> made
  so far, and the next call returns \<open>clock ticks\<close>. Readings are real numbers.
\<close>

record 'b world =
  stack :: "'b list"
  debug :: "string list"
  TIME_LIMIT :: int
  stdout :: "printed list"
  clock :: "nat \<Rightarrow> real"
  ticks :: nat

definition INFINITY :: int where
  "INFINITY = 9223372036854775807"

definition NINFINITY :: int where
  "NINFINITY = - 9223372036854775807"

text \<open>The module state right after import: \<^verbatim>\<open>TIME_LIMIT = 1\<close>, both lists empty.\<close>

definition initial_world :: "'b world" where
  "initial_world =
     \<lparr>stack = [], debug = [], TIME_LIMIT = 1, stdout = [], clock = (\<lambda>_. 0), ticks = 0\<rparr>"

section \<open>Helpers\<close>

fun opposite_color :: "color option \<Rightarrow> color option" where
  "opposite_color (Some BLACK) = Some WHITE"
| "opposite_color (Some WHITE) = Some BLACK"
| "opposite_color _ = None"

definition print :: "printed \<Rightarrow> 'b world \<Rightarrow> 'b world" where
  "print x w = w\<lparr>stdout := stdout w @ [x]\<rparr>"

definition time_time :: "'b world \<Rightarrow> real \<times> 'b world" where
  "time_time w = (clock w (ticks w), w\<lparr>ticks := Suc (ticks w)\<rparr>)"

definition setGlobalTime :: "int \<Rightarrow> 'b world \<Rightarrow> 'b world" where
  "setGlobalTime t w = w\<lparr>TIME_LIMIT := t\<rparr>"

text \<open>
  \<^verbatim>\<open>save_board\<close> appends a copy of the board to \<^verbatim>\<open>stack\<close>; boards are values here, so the
  copy is the board itself. The top of the stack is the end of the list, as in the source.
\<close>

definition save_board :: "'b \<Rightarrow> 'b world \<Rightarrow> 'b world" where
  "save_board board w =
     w\<lparr>stack := stack w @ [board], debug := debug w @ [''Stored board'']\<rparr>"

text \<open>
  \<^verbatim>\<open>undo\<close> logs, prints a message when the stack is empty, and then calls
  \<^verbatim>\<open>stack.pop()\<close> in either case; on an empty list that call raises \<^verbatim>\<open>IndexError\<close>.
\<close>

definition undo :: "'b world \<Rightarrow> (error + 'b) \<times> 'b world" where
  "undo w =
     (let w1 = w\<lparr>debug := debug w @ [''Undid board'']\<rparr>;
          w2 = (if length (stack w1) = 0 then print (PrintStr ''Stack is empty!'') w1 else w1)
      in if stack w2 = [] then (Inl IndexError, w2)
         else (Inr (last (stack w2)), w2\<lparr>stack := butlast (stack w2)\<rparr>))"

section \<open>The win/loss prover\<close>

text \<open>
  A run of a search function returns \<open>None\<close> when the bound on nested calls is used up
  (the call has not returned), and otherwise the raised error or the returned value
  together with the world it leaves behind.

  The loop of each node is a function of its own, recursive over the remaining moves; its
  first argument is the function it calls for each child. The local variable \<^verbatim>\<open>board\<close>
  is rebound to the popped snapshot after every child.

  In the source the child works on the very object it is handed and changes it in place.
  Its caller never reads that object again: the next thing it does with \<^verbatim>\<open>board\<close> is to
  rebind it to the snapshot it pushed before the move. So boards are passed by value here.
\<close>

type_synonym 'b node =
  "'b \<Rightarrow> int \<Rightarrow> color option \<Rightarrow> int \<Rightarrow> int \<Rightarrow> 'b world \<Rightarrow> ((error + verdict) \<times> 'b world) option"

fun MinimaxBooleanOR_loop ::
  "'b node \<Rightarrow> 'b game \<Rightarrow> nat list \<Rightarrow> 'b \<Rightarrow> int \<Rightarrow> color option \<Rightarrow> int \<Rightarrow> int \<Rightarrow> int \<Rightarrow> bool \<Rightarrow>
   'b world \<Rightarrow> ((error + verdict) \<times> 'b world) option" where
  "MinimaxBooleanOR_loop child G [] board depth color alpha beta best_points is_win w =
     Some (Inr (is_win, color, best_points), w)"
| "MinimaxBooleanOR_loop child G (move # moves) board depth color alpha beta best_points is_win w =
     (case child (play_move_gomoku G board move color) (depth - 1) (opposite_color color)
             alpha beta (save_board board w) of
        None \<Rightarrow> None
      | Some (Inl e, w1) \<Rightarrow> Some (Inl e, w1)
      | Some (Inr (win, col, points), w1) \<Rightarrow>
          (let win1 = (if col \<noteq> color then False else win);
               points1 = (if col \<noteq> color then - points else points);
               is_win1 = (if win1 then True else is_win);
               best_points1 = (if points1 > best_points then points1 else best_points)
           in case undo w1 of
                (Inl e, w2) \<Rightarrow> Some (Inl e, w2)
              | (Inr board1, w2) \<Rightarrow>
                  MinimaxBooleanOR_loop child G moves board1 depth color
                    (if best_points1 \<ge> alpha then best_points1 else alpha) beta
                    best_points1 is_win1 w2))"

fun MinimaxBooleanAND_loop ::
  "'b node \<Rightarrow> 'b game \<Rightarrow> nat list \<Rightarrow> 'b \<Rightarrow> int \<Rightarrow> color option \<Rightarrow> int \<Rightarrow> int \<Rightarrow> int \<Rightarrow>
   'b world \<Rightarrow> ((error + verdict) \<times> 'b world) option" where
  "MinimaxBooleanAND_loop child G [] board depth color alpha beta worst_points w =
     Some (Inr (True, opposite_color color, worst_points), w)"
| "MinimaxBooleanAND_loop child G (move # moves) board depth color alpha beta worst_points w =
     (case child (play_move_gomoku G board move color) (depth - 1) (opposite_color color)
             alpha beta (save_board board w) of
        None \<Rightarrow> None
      | Some (Inl e, w1) \<Rightarrow> Some (Inl e, w1)
      | Some (Inr (win, col, points), w1) \<Rightarrow>
          (let win1 = (if col \<noteq> opposite_color color then False else win);
               points1 = (if col \<noteq> opposite_color color then - points else points)
           in if \<not> win1 then
                (case undo w1 of
                   (Inl e, w2) \<Rightarrow> Some (Inl e, w2)
                 | (Inr board1, w2) \<Rightarrow> Some (Inr (False, opposite_color color, points1), w2))
              else
                (let worst_points1 = (if points1 < worst_points then points1 else worst_points)
                 in case undo w1 of
                      (Inl e, w2) \<Rightarrow> Some (Inl e, w2)
                    | (Inr board1, w2) \<Rightarrow>
                        MinimaxBooleanAND_loop child G moves board1 depth color alpha
                          (if worst_points1 \<le> beta then points1 else beta) worst_points1 w2)))"

fun MinimaxBooleanOR :: "nat \<Rightarrow> 'b game \<Rightarrow> 'b node"
  and MinimaxBooleanAND :: "nat \<Rightarrow> 'b game \<Rightarrow> 'b node" where
  "MinimaxBooleanOR 0 G board depth color alpha beta w = None"
| "MinimaxBooleanOR (Suc fuel) G board depth color alpha beta w =
     (let moves = generate_legal_moves_gomoku G board;
          w1 = print (PrintInt (TIME_LIMIT w)) w
      in if depth = 0 \<or> length moves = 0 then
           (if length moves = 0 then Some (Inr (StatisticallyEvaluate G board (Some False)), w1)
            else Some (Inr (StatisticallyEvaluate G board None), w1))
         else MinimaxBooleanOR_loop (MinimaxBooleanAND fuel G) G moves board depth color
                alpha beta 0 False w1)"
| "MinimaxBooleanAND 0 G board depth color alpha beta w = None"
| "MinimaxBooleanAND (Suc fuel) G board depth color alpha beta w =
     (let moves = generate_legal_moves_gomoku G board
      in if depth = 0 \<or> length moves = 0 then
           (if length moves = 0 then Some (Inr (StatisticallyEvaluate G board (Some False)), w)
            else Some (Inr (StatisticallyEvaluate G board None), w))
         else MinimaxBooleanAND_loop (MinimaxBooleanOR fuel G) G moves board depth color
                alpha beta 10000 w)"

section \<open>The top-level driver\<close>

text \<open>
  The two tests the driver applies to the result of each candidate, on the loop variables
  \<^verbatim>\<open>is_win\<close>, \<^verbatim>\<open>best_move\<close>, \<^verbatim>\<open>best_points\<close> and \<^verbatim>\<open>alpha\<close>. The outcome codes
  are those of the source: 0 no win found, 1 draw, 2 win, 4 timeout. The driver takes the
  result of the AND node as it comes, without the colour test the nodes apply.
\<close>

fun Minimax_record ::
  "nat \<Rightarrow> verdict \<Rightarrow> int \<times> nat option \<times> int \<times> int \<Rightarrow> int \<times> nat option \<times> int \<times> int" where
  "Minimax_record move (win, col, points) (is_win, best_move, best_points, alpha) =
     (let (is_win1, best_move1, best_points1, alpha1) =
            (if win \<and> points > best_points then (2, Some move, points, points)
             else (is_win, best_move, best_points, alpha))
      in if is_win1 \<noteq> 2 \<and> points = 0 then (1, Some move, best_points1, alpha1)
         else (is_win1, best_move1, best_points1, alpha1))"

fun Minimax_loop ::
  "nat \<Rightarrow> 'b game \<Rightarrow> nat list \<Rightarrow> 'b \<Rightarrow> int \<Rightarrow> color option \<Rightarrow> int \<Rightarrow> real \<Rightarrow>
   int \<times> nat option \<times> int \<times> int \<Rightarrow> 'b world \<Rightarrow> ((error + int \<times> nat option) \<times> 'b world) option" where
  "Minimax_loop fuel G [] board depth color beta start_time (is_win, best_move, best_points, alpha) w =
     Some (Inr (is_win, best_move), w)"
| "Minimax_loop fuel G (move # moves) board depth color beta start_time
       (is_win, best_move, best_points, alpha) w =
     (let (now, w1) = time_time w;
          time_elapsed = now - start_time
      in if time_elapsed \<ge> real_of_int (TIME_LIMIT w1) then Some (Inr (4, None), w1)
         else
           (case MinimaxBooleanAND fuel G (play_move_gomoku G board move color) (depth - 1)
                   (opposite_color color) alpha beta
                   (save_board board (print (PrintFloat time_elapsed) w1)) of
              None \<Rightarrow> None
            | Some (Inl e, w2) \<Rightarrow> Some (Inl e, w2)
            | Some (Inr v, w2) \<Rightarrow>
                (case undo w2 of
                   (Inl e, w3) \<Rightarrow> Some (Inl e, w3)
                 | (Inr board1, w3) \<Rightarrow>
                     Minimax_loop fuel G moves board1 depth color beta start_time
                       (Minimax_record move v (is_win, best_move, best_points, alpha)) w3)))"

definition Minimax ::
  "nat \<Rightarrow> 'b game \<Rightarrow> 'b \<Rightarrow> int \<Rightarrow> color option \<Rightarrow> 'b world \<Rightarrow>
   ((error + int \<times> nat option) \<times> 'b world) option" where
  "Minimax fuel G board depth color w =
     (let (start_time, w1) = time_time w;
          moves = generate_legal_moves_gomoku G board;
          (win, col) = check_game_end_gomoku G board
      in if win \<and> col = opposite_color color then Some (Inr (0, None), w1)
         else Minimax_loop fuel G moves board depth color INFINITY start_time
                (0, None, 0, NINFINITY) w1)"

section \<open>Notions used in the statements\<close>

text \<open>
  A game tree for concrete runs. A board is the list of the moves played so far; every
  board with fewer than \<open>h\<close> moves has the legal moves \<open>ms\<close>, the others have none; no
  board is decided, and the static evaluator answers \<open>ev b\<close> on board \<open>b\<close>.
\<close>

definition tree_game :: "nat \<Rightarrow> nat list \<Rightarrow> (nat list \<Rightarrow> verdict) \<Rightarrow> nat list game" where
  "tree_game h ms ev =
     \<lparr>generate_legal_moves_gomoku = (\<lambda>b. if length b < h then ms else []),
      play_move_gomoku = (\<lambda>b m c. b @ [m]),
      check_game_end_gomoku = (\<lambda>b. (False, None)),
      StatisticallyEvaluate = (\<lambda>b hm. ev b)\<rparr>"

text \<open>The same game when every board is reported as already won by WHITE.\<close>

definition decided_game :: "nat \<Rightarrow> nat list \<Rightarrow> (nat list \<Rightarrow> verdict) \<Rightarrow> nat list game" where
  "decided_game h ms ev =
     (tree_game h ms ev)\<lparr>check_game_end_gomoku := (\<lambda>b. (True, Some WHITE))\<rparr>"

text \<open>
  Two worlds with a clock that jumps: it stands at 0 for the first two readings and at 3
  from then on, or at 0 for the first four readings and at 5 from then on.
\<close>

definition late_world :: "nat list world" where
  "late_world = initial_world\<lparr>clock := (\<lambda>n. if n < 2 then 0 else 3)\<rparr>"

definition slow_world :: "nat list world" where
  "slow_world = initial_world\<lparr>clock := (\<lambda>n. if n < 4 then 0 else 5)\<rparr>"

text \<open>
  What a run may change in the world: the debug log grows by entries among which the
  pushes and the pops are equally many, the output grows, and \<open>k\<close> more clock readings
  have been taken. The stack, the time limit and the clock are as before.
\<close>

definition balanced :: "string list \<Rightarrow> bool" where
  "balanced ds = (count_list ds ''Stored board'' = count_list ds ''Undid board'')"

definition frame :: "nat \<Rightarrow> 'b world \<Rightarrow> 'b world \<Rightarrow> bool" where
  "frame k w w' =
     (\<exists>ds os. w' = w\<lparr>debug := debug w @ ds, stdout := stdout w @ os, ticks := ticks w + k\<rparr>
        \<and> balanced ds)"

text \<open>
  Two properties of a function called for the children of a node: whenever it returns,
  it returns a value and leaves the world framed; and what it returns depends neither on
  the bounds nor on the world it starts in.
\<close>

definition node_ok :: "'b node \<Rightarrow> bool" where
  "node_ok child =
     (\<forall>b d c al be w r w'. child b d c al be w = Some (r, w') \<longrightarrow>
        (\<exists>v. r = Inr v) \<and> frame 0 w w')"

definition node_indep :: "'b node \<Rightarrow> bool" where
  "node_indep child =
     (\<forall>b d c al be w al' be' w'.
        map_option fst (child b d c al be w) = map_option fst (child b d c al' be' w'))"

text \<open>
  The verdict of a node on a board: the value the node returns when it is run in the
  freshly imported module with the bounds the driver starts from.
\<close>

definition OR_verdict :: "nat \<Rightarrow> 'b game \<Rightarrow> 'b \<Rightarrow> int \<Rightarrow> color option \<Rightarrow> verdict option" where
  "OR_verdict fuel G board depth color =
     (case MinimaxBooleanOR fuel G board depth color NINFINITY INFINITY initial_world of
        Some (Inr v, w) \<Rightarrow> Some v
      | _ \<Rightarrow> None)"

definition AND_verdict :: "nat \<Rightarrow> 'b game \<Rightarrow> 'b \<Rightarrow> int \<Rightarrow> color option \<Rightarrow> verdict option" where
  "AND_verdict fuel G board depth color =
     (case MinimaxBooleanAND fuel G board depth color NINFINITY INFINITY initial_world of
        Some (Inr v, w) \<Rightarrow> Some v
      | _ \<Rightarrow> None)"

text \<open>
  The AND-node verdicts of the driver's candidates, in enumeration order, and the outcome
  the driver's two tests leave after the candidates \<open>ms\<close> with the verdicts \<open>vs\<close>.
\<close>

definition candidates ::
  "nat \<Rightarrow> 'b game \<Rightarrow> 'b \<Rightarrow> int \<Rightarrow> color option \<Rightarrow> nat list \<Rightarrow> verdict option list" where
  "candidates fuel G board depth color ms =
     map (\<lambda>m. AND_verdict fuel G (play_move_gomoku G board m color) (depth - 1)
                 (opposite_color color)) ms"

definition Minimax_outcome ::
  "int \<times> nat option \<times> int \<times> int \<Rightarrow> nat list \<Rightarrow> verdict list \<Rightarrow> int \<times> nat option" where
  "Minimax_outcome acc ms vs =
     (case foldl (\<lambda>a (m, v). Minimax_record m v a) acc (zip ms vs) of
        (is_win, best_move, best_points, alpha) \<Rightarrow> (is_win, best_move))"

text \<open>
  Two \<^verbatim>\<open>solve\<close> commands in a row: \<^verbatim>\<open>minimax_solve\<close> hands \<^verbatim>\<open>Minimax\<close> a copy of the
  board, so the second call gets the same position, in the world the first call left.
\<close>

definition Minimax_twice ::
  "nat \<Rightarrow> 'b game \<Rightarrow> 'b \<Rightarrow> int \<Rightarrow> color option \<Rightarrow> 'b world \<Rightarrow>
   ((int \<times> nat option) \<times> (int \<times> nat option)) option" where
  "Minimax_twice fuel G board depth color w =
     (case Minimax fuel G board depth color w of
        Some (Inr out1, w1) \<Rightarrow>
          (case Minimax fuel G board depth color w1 of
             Some (Inr out2, w2) \<Rightarrow> Some (out1, out2)
           | _ \<Rightarrow> None)
      | _ \<Rightarrow> None)"

text \<open>
  A candidate paired with its verdict: whether the verdict is a win, and its score.
\<close>

definition proves_win :: "nat \<times> verdict \<Rightarrow> bool" where
  "proves_win x = fst (snd x)"

definition score :: "nat \<times> verdict \<Rightarrow> int" where
  "score x = snd (snd (snd x))"

text \<open>
  What the driver keeps. \<open>first_best_win xs m p\<close>: candidate \<open>m\<close> has a winning verdict
  with the positive score \<open>p\<close>, every winning candidate enumerated before it has a
  strictly smaller score, and every winning candidate enumerated after it has a score of
  at most \<open>p\<close>. \<open>last_zero xs m\<close>: candidate \<open>m\<close> has score 0 and no candidate enumerated
  after it has. \<open>no_win xs\<close>: no candidate has a winning verdict with a positive score.
\<close>

definition first_best_win :: "(nat \<times> verdict) list \<Rightarrow> nat \<Rightarrow> int \<Rightarrow> bool" where
  "first_best_win xs m p =
     (\<exists>pre col post. xs = pre @ (m, True, col, p) # post \<and> 0 < p \<and>
        (\<forall>x \<in> set pre. proves_win x \<longrightarrow> score x < p) \<and>
        (\<forall>x \<in> set post. proves_win x \<longrightarrow> score x \<le> p))"

definition last_zero :: "(nat \<times> verdict) list \<Rightarrow> nat \<Rightarrow> bool" where
  "last_zero xs m =
     (\<exists>pre win col post. xs = pre @ (m, win, col, 0) # post \<and> (\<forall>x \<in> set post. score x \<noteq> 0))"

definition no_win :: "(nat \<times> verdict) list \<Rightarrow> bool" where
  "no_win xs = (\<forall>x \<in> set xs. \<not> (proves_win x \<and> 0 < score x))"

text \<open>
  The outcome of the driver's loop over the candidates \<open>xs\<close>: a win with the first
  candidate of the best winning score; failing any win, a draw with the last candidate of
  score 0; failing that, \<open>(0, None)\<close>.
\<close>

definition Minimax_chosen :: "(nat \<times> verdict) list \<Rightarrow> int \<times> nat option \<Rightarrow> bool" where
  "Minimax_chosen xs out =
     ((\<exists>m p. first_best_win xs m p \<and> out = (2, Some m)) \<or>
      (no_win xs \<and> (\<exists>m. last_zero xs m \<and> out = (1, Some m))) \<or>
      (no_win xs \<and> (\<forall>x \<in> set xs. score x \<noteq> 0) \<and> out = (0, None)))"

text \<open>
  The same outcome, computed: with \<open>wins\<close> the candidates that have a winning verdict
  with a positive score, the first candidate whose winning score is the highest of
  \<open>wins\<close>; with no such candidate, the last of the candidates with score 0.
\<close>

definition Minimax_expected :: "(nat \<times> verdict) list \<Rightarrow> int \<times> nat option" where
  "Minimax_expected xs =
     (let wins = filter (\<lambda>x. proves_win x \<and> 0 < score x) xs;
          zeros = filter (\<lambda>x. score x = 0) xs
      in if wins \<noteq> [] then
           (2, map_option fst
                 (find (\<lambda>x. proves_win x \<and> score x = Max (set (map score wins))) xs))
         else if zeros \<noteq> [] then (1, Some (fst (last zeros)))
         else (0, None))"

text \<open>The invariant of the loop variables after the candidates \<open>xs\<close>.\<close>

definition record_inv :: "(nat \<times> verdict) list \<Rightarrow> int \<times> nat option \<times> int \<times> int \<Rightarrow> bool" where
  "record_inv xs acc =
     (case acc of (is_win, best_move, best_points, alpha) \<Rightarrow>
        (is_win = 2 \<and> (\<exists>m. best_move = Some m \<and> first_best_win xs m best_points)) \<or>
        (is_win = 1 \<and> best_points = 0 \<and> no_win xs \<and> (\<exists>m. best_move = Some m \<and> last_zero xs m)) \<or>
        (is_win = 0 \<and> best_points = 0 \<and> best_move = None \<and> no_win xs \<and>
           (\<forall>x \<in> set xs. score x \<noteq> 0)))"

text \<open>
  The result of a child as a node with the colour \<open>c\<close> in its \<^verbatim>\<open>col\<close> test takes it:
  when the colour of the result differs from \<open>c\<close> the score is negated and the win
  dropped.
\<close>

definition seen_score :: "color option \<Rightarrow> verdict \<Rightarrow> int" where
  "seen_score c v = (case v of (win, col, points) \<Rightarrow> if col \<noteq> c then - points else points)"

definition seen_win :: "color option \<Rightarrow> verdict \<Rightarrow> bool" where
  "seen_win c v = (case v of (win, col, points) \<Rightarrow> if col \<noteq> c then False else win)"

section \<open>Framing: what a run leaves behind\<close>

lemma frame_refl: "frame 0 w w"
  unfolding frame_def balanced_def
  by (rule exI [of _ "[]"], rule exI [of _ "[]"]) simp

lemma frame_print: "frame 0 w (print x w)"
  unfolding frame_def balanced_def print_def
  by (rule exI [of _ "[]"], rule exI [of _ "[x]"]) simp

lemma frame_trans: "frame j w w1 \<Longrightarrow> frame k w1 w2 \<Longrightarrow> frame (j + k) w w2"
proof -
  assume "frame j w w1" and "frame k w1 w2"
  then obtain ds os ds' os' where
    "w1 = w\<lparr>debug := debug w @ ds, stdout := stdout w @ os, ticks := ticks w + j\<rparr>" "balanced ds"
    "w2 = w1\<lparr>debug := debug w1 @ ds', stdout := stdout w1 @ os', ticks := ticks w1 + k\<rparr>"
    "balanced ds'"
    unfolding frame_def by blast
  then have "w2 = w\<lparr>debug := debug w @ (ds @ ds'), stdout := stdout w @ (os @ os'),
      ticks := ticks w + (j + k)\<rparr>"
    and "balanced (ds @ ds')"
    by (simp_all add: balanced_def)
  then show ?thesis unfolding frame_def by blast
qed

lemma frame_trans0: "frame 0 w w1 \<Longrightarrow> frame 0 w1 w2 \<Longrightarrow> frame 0 w w2"
  using frame_trans [of 0 w w1 0 w2] by simp

lemma frame_push_pop:
  assumes "frame 0 (save_board b w) w1"
  shows "\<exists>w2. undo w1 = (Inr b, w2) \<and> frame 0 w w2"
proof -
  from assms obtain ds os where
    w1: "w1 = (save_board b w)\<lparr>debug := debug (save_board b w) @ ds,
        stdout := stdout (save_board b w) @ os, ticks := ticks (save_board b w) + 0\<rparr>"
    and b: "balanced ds"
    unfolding frame_def by blast
  have "undo w1 = (Inr b, w\<lparr>debug := debug w @ (''Stored board'' # ds @ [''Undid board'']),
      stdout := stdout w @ os, ticks := ticks w + 0\<rparr>)"
    unfolding w1 by (simp add: undo_def save_board_def print_def Let_def)
  moreover have "balanced (''Stored board'' # ds @ [''Undid board''])"
    using b by (simp add: balanced_def)
  ultimately show ?thesis unfolding frame_def by blast
qed

lemma frame_fields:
  "frame k w w' \<Longrightarrow> stack w' = stack w \<and> TIME_LIMIT w' = TIME_LIMIT w \<and> clock w' = clock w
     \<and> ticks w' = ticks w + k"
  unfolding frame_def by auto

lemma frame_debug:
  "frame k w w' \<Longrightarrow> \<exists>ds. debug w' = debug w @ ds \<and> balanced ds"
  unfolding frame_def by auto

lemma OR_loop_frame:
  assumes "node_ok child"
  shows "MinimaxBooleanOR_loop child G ms board depth color alpha beta bp iw w = Some (r, w')
    \<Longrightarrow> (\<exists>v. r = Inr v) \<and> frame 0 w w'"
proof (induction ms arbitrary: board alpha bp iw w)
  case Nil
  then show ?case by (auto simp: frame_refl)
next
  case (Cons m ms)
  let ?c = "child (play_move_gomoku G board m color) (depth - 1) (opposite_color color) alpha beta (save_board board w)"
  from Cons.prems obtain r1 w1 where c1: "?c = Some (r1, w1)"
    by (cases ?c) auto
  with assms have ok: "(\<exists>v. r1 = Inr v) \<and> frame 0 (save_board board w) w1"
    unfolding node_ok_def by blast
  then obtain win col points where c: "?c = Some (Inr (win, col, points), w1)"
    using c1 by (metis prod_cases3)
  from ok have "frame 0 (save_board board w) w1" by simp
  from frame_push_pop [OF this] obtain w2 where u: "undo w1 = (Inr board, w2)" and f: "frame 0 w w2" by blast
  from Cons.prems c u obtain al' bp' iw' where
    "MinimaxBooleanOR_loop child G ms board depth color al' beta bp' iw' w2 = Some (r, w')"
    by (simp add: Let_def)
  from Cons.IH [OF this] f show ?case by (blast intro: frame_trans0)
qed

lemma AND_loop_frame:
  assumes "node_ok child"
  shows "MinimaxBooleanAND_loop child G ms board depth color alpha beta wp w = Some (r, w')
    \<Longrightarrow> (\<exists>v. r = Inr v) \<and> frame 0 w w'"
proof (induction ms arbitrary: board beta wp w)
  case Nil
  then show ?case by (auto simp: frame_refl)
next
  case (Cons m ms)
  let ?c = "child (play_move_gomoku G board m color) (depth - 1) (opposite_color color) alpha beta (save_board board w)"
  from Cons.prems obtain r1 w1 where c1: "?c = Some (r1, w1)"
    by (cases ?c) auto
  with assms have ok: "(\<exists>v. r1 = Inr v) \<and> frame 0 (save_board board w) w1"
    unfolding node_ok_def by blast
  then obtain win col points where c: "?c = Some (Inr (win, col, points), w1)"
    using c1 by (metis prod_cases3)
  from ok have "frame 0 (save_board board w) w1" by simp
  from frame_push_pop [OF this] obtain w2 where u: "undo w1 = (Inr board, w2)" and f: "frame 0 w w2" by blast
  show ?case
  proof (cases "col \<noteq> opposite_color color \<or> \<not> win")
    case True
    with Cons.prems c u have "w' = w2 \<and> r = Inr (False, opposite_color color, if col \<noteq> opposite_color color then - points else points)"
      by (simp add: Let_def split: if_splits)
    with f show ?thesis by blast
  next
    case False
    with Cons.prems c u obtain be' wp' where
      "MinimaxBooleanAND_loop child G ms board depth color alpha be' wp' w2 = Some (r, w')"
      by (simp add: Let_def)
    from Cons.IH [OF this] f show ?thesis by (blast intro: frame_trans0)
  qed
qed

lemma nodes_ok: "node_ok (MinimaxBooleanOR fuel G) \<and> node_ok (MinimaxBooleanAND fuel G)"
proof (induction fuel)
  case 0
  show ?case by (simp add: node_ok_def)
next
  case (Suc fuel)
  have "node_ok (MinimaxBooleanOR (Suc fuel) G)"
    unfolding node_ok_def
  proof (intro allI impI)
    fix b d c al be w r w'
    assume run: "MinimaxBooleanOR (Suc fuel) G b d c al be w = Some (r, w')"
    show "(\<exists>v. r = Inr v) \<and> frame 0 w w'"
    proof (cases "d = 0 \<or> generate_legal_moves_gomoku G b = []")
      case True
      with run have "(r = Inr (StatisticallyEvaluate G b (Some False)) \<or> r = Inr (StatisticallyEvaluate G b None))
          \<and> w' = print (PrintInt (TIME_LIMIT w)) w"
        by (simp add: Let_def split: if_splits)
      then show ?thesis using frame_print by blast
    next
      case False
      with run have "MinimaxBooleanOR_loop (MinimaxBooleanAND fuel G) G (generate_legal_moves_gomoku G b)
          b d c al be 0 False (print (PrintInt (TIME_LIMIT w)) w) = Some (r, w')"
        by (simp add: Let_def)
      from OR_loop_frame [OF _ this] Suc show ?thesis
        by (blast intro: frame_trans0 frame_print)
    qed
  qed
  moreover have "node_ok (MinimaxBooleanAND (Suc fuel) G)"
    unfolding node_ok_def
  proof (intro allI impI)
    fix b d c al be w r w'
    assume run: "MinimaxBooleanAND (Suc fuel) G b d c al be w = Some (r, w')"
    show "(\<exists>v. r = Inr v) \<and> frame 0 w w'"
    proof (cases "d = 0 \<or> generate_legal_moves_gomoku G b = []")
      case True
      with run have "(r = Inr (StatisticallyEvaluate G b (Some False)) \<or> r = Inr (StatisticallyEvaluate G b None))
          \<and> w' = w"
        by (simp add: Let_def split: if_splits)
      then show ?thesis using frame_refl by blast
    next
      case False
      with run have "MinimaxBooleanAND_loop (MinimaxBooleanOR fuel G) G (generate_legal_moves_gomoku G b)
          b d c al be 10000 w = Some (r, w')"
        by (simp add: Let_def)
      from AND_loop_frame [OF _ this] Suc show ?thesis by blast
    qed
  qed
  ultimately show ?case by blast
qed

section \<open>The value of a node does not depend on the world\<close>

lemma child_cases:
  assumes ok: "node_ok child" and ind: "node_indep child"
  obtains (diverges) "child b d c al be w = None" "child b d c al' be' w' = None"
  | (returns) v w1 w1' where "child b d c al be w = Some (Inr v, w1)" "frame 0 w w1"
      "child b d c al' be' w' = Some (Inr v, w1')" "frame 0 w' w1'"
proof (cases "child b d c al be w")
  case None
  with ind have "child b d c al' be' w' = None"
    unfolding node_indep_def by (metis map_option_is_None)
  with None show ?thesis by (rule diverges)
next
  case (Some rw)
  obtain r w1 where rw: "rw = (r, w1)" by (cases rw)
  from ok Some rw obtain v where r: "r = Inr v" and f: "frame 0 w w1"
    unfolding node_ok_def by blast
  from ind have "map_option fst (child b d c al' be' w') = Some (Inr v)"
    unfolding node_indep_def using Some rw r by (metis fst_conv option.simps(9))
  then obtain w1' where s': "child b d c al' be' w' = Some (Inr v, w1')"
    by (cases "child b d c al' be' w'") auto
  with ok have "frame 0 w' w1'" unfolding node_ok_def by blast
  with Some rw r f s' show ?thesis by (auto intro: returns)
qed

lemma OR_loop_indep:
  assumes ok: "node_ok child" and ind: "node_indep child"
  shows "map_option fst (MinimaxBooleanOR_loop child G ms board depth color al be bp iw w) =
         map_option fst (MinimaxBooleanOR_loop child G ms board depth color al' be' bp iw w')"
proof (induction ms arbitrary: board al al' bp iw w w')
  case Nil
  show ?case by simp
next
  case (Cons m ms)
  show ?case
  proof (rule child_cases [OF ok ind, of "play_move_gomoku G board m color" "depth - 1"
        "opposite_color color" al be "save_board board w" al' be' "save_board board w'"])
    assume "child (play_move_gomoku G board m color) (depth - 1) (opposite_color color) al be
        (save_board board w) = None"
      "child (play_move_gomoku G board m color) (depth - 1) (opposite_color color) al' be'
        (save_board board w') = None"
    then show ?thesis by simp
  next
    fix v w1 w1'
    assume c: "child (play_move_gomoku G board m color) (depth - 1) (opposite_color color) al be
        (save_board board w) = Some (Inr v, w1)"
      and f: "frame 0 (save_board board w) w1"
      and c': "child (play_move_gomoku G board m color) (depth - 1) (opposite_color color) al' be'
        (save_board board w') = Some (Inr v, w1')"
      and f': "frame 0 (save_board board w') w1'"
    obtain win col points where v: "v = (win, col, points)" by (cases v)
    from frame_push_pop [OF f] obtain w2 where u: "undo w1 = (Inr board, w2)" by blast
    from frame_push_pop [OF f'] obtain w2' where u': "undo w1' = (Inr board, w2')" by blast
    show ?thesis
      using c c' u u' v by (simp add: Let_def Cons.IH)
  qed
qed

lemma AND_loop_indep:
  assumes ok: "node_ok child" and ind: "node_indep child"
  shows "map_option fst (MinimaxBooleanAND_loop child G ms board depth color al be wp w) =
         map_option fst (MinimaxBooleanAND_loop child G ms board depth color al' be' wp w')"
proof (induction ms arbitrary: board be be' wp w w')
  case Nil
  show ?case by simp
next
  case (Cons m ms)
  show ?case
  proof (rule child_cases [OF ok ind, of "play_move_gomoku G board m color" "depth - 1"
        "opposite_color color" al be "save_board board w" al' be' "save_board board w'"])
    assume "child (play_move_gomoku G board m color) (depth - 1) (opposite_color color) al be
        (save_board board w) = None"
      "child (play_move_gomoku G board m color) (depth - 1) (opposite_color color) al' be'
        (save_board board w') = None"
    then show ?thesis by simp
  next
    fix v w1 w1'
    assume c: "child (play_move_gomoku G board m color) (depth - 1) (opposite_color color) al be
        (save_board board w) = Some (Inr v, w1)"
      and f: "frame 0 (save_board board w) w1"
      and c': "child (play_move_gomoku G board m color) (depth - 1) (opposite_color color) al' be'
        (save_board board w') = Some (Inr v, w1')"
      and f': "frame 0 (save_board board w') w1'"
    obtain win col points where v: "v = (win, col, points)" by (cases v)
    from frame_push_pop [OF f] obtain w2 where u: "undo w1 = (Inr board, w2)" by blast
    from frame_push_pop [OF f'] obtain w2' where u': "undo w1' = (Inr board, w2')" by blast
    show ?thesis
      using c c' u u' v by (simp add: Let_def Cons.IH)
  qed
qed

lemma nodes_indep: "node_indep (MinimaxBooleanOR fuel G) \<and> node_indep (MinimaxBooleanAND fuel G)"
proof (induction fuel)
  case 0
  show ?case by (simp add: node_indep_def)
next
  case (Suc fuel)
  have "node_indep (MinimaxBooleanOR (Suc fuel) G)"
    unfolding node_indep_def
    using OR_loop_indep [of "MinimaxBooleanAND fuel G"] nodes_ok [of fuel G] Suc
    by (simp add: Let_def)
  moreover have "node_indep (MinimaxBooleanAND (Suc fuel) G)"
    unfolding node_indep_def
    using AND_loop_indep [of "MinimaxBooleanOR fuel G"] nodes_ok [of fuel G] Suc
    by (simp add: Let_def)
  ultimately show ?case by blast
qed


lemma OR_verdict_run:
  "OR_verdict fuel G b d c = Some v \<Longrightarrow>
   \<exists>w'. MinimaxBooleanOR fuel G b d c al be w = Some (Inr v, w') \<and> frame 0 w w'"
proof -
  assume vd: "OR_verdict fuel G b d c = Some v"
  from nodes_ok [of fuel G] nodes_indep [of fuel G]
  have ok: "node_ok (MinimaxBooleanOR fuel G)" and ind: "node_indep (MinimaxBooleanOR fuel G)"
    by simp_all
  show ?thesis
    by (rule child_cases [OF ok ind, of b d c al be w NINFINITY INFINITY initial_world])
      (use vd in \<open>auto simp: OR_verdict_def\<close>)
qed

lemma AND_run_verdict:
  "MinimaxBooleanAND fuel G b d c al be w = Some (r, w') \<Longrightarrow>
   \<exists>v. r = Inr v \<and> AND_verdict fuel G b d c = Some v \<and> frame 0 w w'"
proof -
  assume run: "MinimaxBooleanAND fuel G b d c al be w = Some (r, w')"
  from nodes_ok [of fuel G] nodes_indep [of fuel G]
  have ok: "node_ok (MinimaxBooleanAND fuel G)" and ind: "node_indep (MinimaxBooleanAND fuel G)"
    by simp_all
  show ?thesis
    by (rule child_cases [OF ok ind, of b d c al be w NINFINITY INFINITY initial_world])
      (use run in \<open>auto simp: AND_verdict_def\<close>)
qed

lemma AND_verdict_run:
  "AND_verdict fuel G b d c = Some v \<Longrightarrow>
   \<exists>w'. MinimaxBooleanAND fuel G b d c al be w = Some (Inr v, w') \<and> frame 0 w w'"
proof -
  assume vd: "AND_verdict fuel G b d c = Some v"
  from nodes_ok [of fuel G] nodes_indep [of fuel G]
  have ok: "node_ok (MinimaxBooleanAND fuel G)" and ind: "node_indep (MinimaxBooleanAND fuel G)"
    by simp_all
  show ?thesis
    by (rule child_cases [OF ok ind, of b d c al be w NINFINITY INFINITY initial_world])
      (use vd in \<open>auto simp: AND_verdict_def\<close>)
qed

section \<open>Termination and the driver's loop\<close>

lemma frame_tick: "frame 1 w (w\<lparr>ticks := Suc (ticks w)\<rparr>)"
  unfolding frame_def balanced_def
  by (rule exI [of _ "[]"], rule exI [of _ "[]"]) simp

lemma OR_loop_total:
  assumes ok: "node_ok child"
    and tot: "\<And>b c al be w. child b (depth - 1) c al be w \<noteq> None"
  shows "MinimaxBooleanOR_loop child G ms board depth color al be bp iw w \<noteq> None"
proof (induction ms arbitrary: board al bp iw w)
  case Nil
  show ?case by simp
next
  case (Cons m ms)
  let ?c = "child (play_move_gomoku G board m color) (depth - 1) (opposite_color color) al be
      (save_board board w)"
  have "?c \<noteq> None" by (rule tot)
  then obtain r w1 where c: "?c = Some (r, w1)" by (cases ?c) auto
  with ok obtain v where r: "r = Inr v" and f: "frame 0 (save_board board w) w1"
    unfolding node_ok_def by blast
  obtain win col points where v: "v = (win, col, points)" by (cases v)
  from frame_push_pop [OF f] obtain w2 where u: "undo w1 = (Inr board, w2)" by blast
  show ?case using c r v u by (simp add: Let_def Cons.IH del: not_None_eq)
qed

lemma AND_loop_total:
  assumes ok: "node_ok child"
    and tot: "\<And>b c al be w. child b (depth - 1) c al be w \<noteq> None"
  shows "MinimaxBooleanAND_loop child G ms board depth color al be wp w \<noteq> None"
proof (induction ms arbitrary: board be wp w)
  case Nil
  show ?case by simp
next
  case (Cons m ms)
  let ?c = "child (play_move_gomoku G board m color) (depth - 1) (opposite_color color) al be
      (save_board board w)"
  have "?c \<noteq> None" by (rule tot)
  then obtain r w1 where c: "?c = Some (r, w1)" by (cases ?c) auto
  with ok obtain v where r: "r = Inr v" and f: "frame 0 (save_board board w) w1"
    unfolding node_ok_def by blast
  obtain win col points where v: "v = (win, col, points)" by (cases v)
  from frame_push_pop [OF f] obtain w2 where u: "undo w1 = (Inr board, w2)" by blast
  show ?case using c r v u by (simp add: Let_def Cons.IH del: not_None_eq)
qed

lemma nodes_total:
  "0 \<le> d \<Longrightarrow> nat d < fuel \<Longrightarrow>
   MinimaxBooleanOR fuel G b d c al be w \<noteq> None \<and> MinimaxBooleanAND fuel G b d c al be w \<noteq> None"
proof (induction fuel arbitrary: d b c al be w)
  case 0
  then show ?case by simp
next
  case (Suc fuel)
  show ?case
  proof (cases "d = 0 \<or> generate_legal_moves_gomoku G b = []")
    case True
    then show ?thesis by (auto simp: Let_def)
  next
    case False
    with Suc.prems have d: "0 \<le> d - 1" "nat (d - 1) < fuel" by auto
    have "MinimaxBooleanOR_loop (MinimaxBooleanAND fuel G) G (generate_legal_moves_gomoku G b) b d c
        al be 0 False (print (PrintInt (TIME_LIMIT w)) w) \<noteq> None"
      using nodes_ok [of fuel G] Suc.IH [OF d] by (intro OR_loop_total) simp_all
    moreover have "MinimaxBooleanAND_loop (MinimaxBooleanOR fuel G) G (generate_legal_moves_gomoku G b)
        b d c al be 10000 w \<noteq> None"
      using nodes_ok [of fuel G] Suc.IH [OF d] by (intro AND_loop_total) simp_all
    ultimately show ?thesis using False by (simp add: Let_def)
  qed
qed

lemma Minimax_loop_timeout:
  "real_of_int (TIME_LIMIT w) \<le> clock w (ticks w) - start \<Longrightarrow>
   Minimax_loop fuel G (m # ms) board depth color be start acc w =
     Some (Inr (4, None), w\<lparr>ticks := Suc (ticks w)\<rparr>)"
  by (cases acc) (simp add: time_time_def)

lemma Minimax_loop_explore:
  assumes t: "clock w (ticks w) - start < real_of_int (TIME_LIMIT w)"
    and run: "Minimax_loop fuel G (m # ms) board depth color be start acc w = Some (r, w')"
  shows "\<exists>v w1. AND_verdict fuel G (play_move_gomoku G board m color) (depth - 1)
             (opposite_color color) = Some v \<and> frame 1 w w1 \<and>
           Minimax_loop fuel G ms board depth color be start (Minimax_record m v acc) w1 = Some (r, w')"
proof -
  obtain iw bm bp al where acc: "acc = (iw, bm, bp, al)" by (cases acc)
  let ?w1 = "w\<lparr>ticks := Suc (ticks w)\<rparr>"
  let ?w2 = "print (PrintFloat (clock w (ticks w) - start)) ?w1"
  let ?c = "MinimaxBooleanAND fuel G (play_move_gomoku G board m color) (depth - 1)
      (opposite_color color) al be (save_board board ?w2)"
  from run t acc obtain r1 w3 where c: "?c = Some (r1, w3)"
    by (cases ?c) (auto simp: time_time_def)
  from AND_run_verdict [OF c] obtain v where r1: "r1 = Inr v"
    and vd: "AND_verdict fuel G (play_move_gomoku G board m color) (depth - 1)
      (opposite_color color) = Some v"
    and f: "frame 0 (save_board board ?w2) w3" by blast
  from frame_push_pop [OF f] obtain w4 where u: "undo w3 = (Inr board, w4)" and f4: "frame 0 ?w2 w4"
    by blast
  have "frame (1 + 0) w ?w2"
    by (rule frame_trans [OF frame_tick frame_print])
  from frame_trans [OF this f4] have "frame 1 w w4" by simp
  moreover from run t acc c r1 u
  have "Minimax_loop fuel G ms board depth color be start (Minimax_record m v acc) w4 = Some (r, w')"
    by (simp add: time_time_def)
  ultimately show ?thesis using vd by blast
qed

lemma Minimax_loop_total:
  assumes tot: "\<And>b c al be w. MinimaxBooleanAND fuel G b (depth - 1) c al be w \<noteq> None"
  shows "Minimax_loop fuel G ms board depth color be start acc w \<noteq> None"
proof (induction ms arbitrary: acc w)
  case Nil
  show ?case by (cases acc) simp
next
  case (Cons m ms)
  obtain iw bm bp al where acc: "acc = (iw, bm, bp, al)" by (cases acc)
  let ?w1 = "w\<lparr>ticks := Suc (ticks w)\<rparr>"
  let ?w2 = "print (PrintFloat (clock w (ticks w) - start)) ?w1"
  let ?c = "MinimaxBooleanAND fuel G (play_move_gomoku G board m color) (depth - 1)
      (opposite_color color) al be (save_board board ?w2)"
  have "?c \<noteq> None" by (rule tot)
  then obtain r1 w3 where c: "?c = Some (r1, w3)" by (cases ?c) auto
  from AND_run_verdict [OF c] obtain v where r1: "r1 = Inr v"
    and f: "frame 0 (save_board board ?w2) w3" by blast
  from frame_push_pop [OF f] obtain w4 where u: "undo w3 = (Inr board, w4)" by blast
  show ?case using acc c r1 u by (simp add: time_time_def Let_def Cons.IH del: not_None_eq)
qed

lemma Minimax_loop_frame:
  "Minimax_loop fuel G ms board depth color be start acc w = Some (r, w') \<Longrightarrow>
   \<exists>out k. r = Inr out \<and> frame k w w'"
proof (induction ms arbitrary: acc w)
  case Nil
  then show ?case by (cases acc) (auto intro: frame_refl)
next
  case (Cons m ms)
  show ?case
  proof (cases "clock w (ticks w) - start < real_of_int (TIME_LIMIT w)")
    case True
    from Minimax_loop_explore [OF True Cons.prems] obtain v w1 where
      f: "frame 1 w w1" and
      run: "Minimax_loop fuel G ms board depth color be start (Minimax_record m v acc) w1 = Some (r, w')"
      by blast
    from Cons.IH [OF run] obtain out k where "r = Inr out" "frame k w1 w'" by blast
    with frame_trans [OF f] show ?thesis by blast
  next
    case False
    then have "Minimax_loop fuel G (m # ms) board depth color be start acc w =
        Some (Inr (4, None), w\<lparr>ticks := Suc (ticks w)\<rparr>)"
      by (intro Minimax_loop_timeout) simp
    with Cons.prems frame_tick [of w] show ?thesis by auto
  qed
qed

lemma Minimax_loop_times_out:
  assumes "k < length ms"
    and "\<forall>i<k. clock w (ticks w + i) - start < real_of_int (TIME_LIMIT w)"
    and "real_of_int (TIME_LIMIT w) \<le> clock w (ticks w + k) - start"
    and "Minimax_loop fuel G ms board depth color be start acc w = Some (r, w')"
  shows "r = Inr (4, None) \<and> frame (Suc k) w w'"
  using assms
proof (induction ms arbitrary: k acc w)
  case Nil
  then show ?case by simp
next
  case (Cons m ms)
  show ?case
  proof (cases k)
    case 0
    with Cons.prems(3) have "Minimax_loop fuel G (m # ms) board depth color be start acc w =
        Some (Inr (4, None), w\<lparr>ticks := Suc (ticks w)\<rparr>)"
      by (intro Minimax_loop_timeout) simp
    with Cons.prems(4) 0 frame_tick [of w] show ?thesis by auto
  next
    case (Suc j)
    with Cons.prems(2) have t: "clock w (ticks w) - start < real_of_int (TIME_LIMIT w)"
      by (metis add.right_neutral zero_less_Suc)
    from Minimax_loop_explore [OF t Cons.prems(4)] obtain v w1 where
      f: "frame 1 w w1" and
      run: "Minimax_loop fuel G ms board depth color be start (Minimax_record m v acc) w1 = Some (r, w')"
      by blast
    from frame_fields [OF f] have eq: "TIME_LIMIT w1 = TIME_LIMIT w" "clock w1 = clock w"
      "ticks w1 = ticks w + 1" by simp_all
    have j: "j < length ms" using Cons.prems(1) Suc by simp
    have a: "\<forall>i<j. clock w1 (ticks w1 + i) - start < real_of_int (TIME_LIMIT w1)"
    proof (intro allI impI)
      fix i assume "i < j"
      then have "Suc i < k" using Suc by simp
      with Cons.prems(2) have "clock w (ticks w + Suc i) - start < real_of_int (TIME_LIMIT w)"
        by blast
      then show "clock w1 (ticks w1 + i) - start < real_of_int (TIME_LIMIT w1)"
        using eq by simp
    qed
    have b: "real_of_int (TIME_LIMIT w1) \<le> clock w1 (ticks w1 + j) - start"
      using Cons.prems(3) Suc eq by simp
    from Cons.IH [OF j a b run] have "r = Inr (4, None)" "frame (Suc j) w1 w'" by simp_all
    with frame_trans [OF f, of "Suc j" w'] Suc show ?thesis by simp
  qed
qed

lemma Minimax_loop_completes:
  assumes "\<forall>i<length ms. clock w (ticks w + i) - start < real_of_int (TIME_LIMIT w)"
    and "Minimax_loop fuel G ms board depth color be start acc w = Some (r, w')"
  shows "\<exists>vs. candidates fuel G board depth color ms = map Some vs \<and>
           r = Inr (Minimax_outcome acc ms vs) \<and> frame (length ms) w w'"
  using assms
proof (induction ms arbitrary: acc w)
  case Nil
  then show ?case
    by (cases acc) (auto simp: candidates_def Minimax_outcome_def intro: frame_refl)
next
  case (Cons m ms)
  from Cons.prems(1) have t: "clock w (ticks w) - start < real_of_int (TIME_LIMIT w)"
    by (metis add.right_neutral length_greater_0_conv list.distinct(1))
  from Minimax_loop_explore [OF t Cons.prems(2)] obtain v w1 where
    vd: "AND_verdict fuel G (play_move_gomoku G board m color) (depth - 1)
             (opposite_color color) = Some v" and
    f: "frame 1 w w1" and
    run: "Minimax_loop fuel G ms board depth color be start (Minimax_record m v acc) w1 = Some (r, w')"
    by blast
  from frame_fields [OF f] have eq: "TIME_LIMIT w1 = TIME_LIMIT w" "clock w1 = clock w"
    "ticks w1 = ticks w + 1" by simp_all
  have a: "\<forall>i<length ms. clock w1 (ticks w1 + i) - start < real_of_int (TIME_LIMIT w1)"
  proof (intro allI impI)
    fix i assume "i < length ms"
    then have "Suc i < length (m # ms)" by simp
    with Cons.prems(1) have "clock w (ticks w + Suc i) - start < real_of_int (TIME_LIMIT w)"
      by blast
    then show "clock w1 (ticks w1 + i) - start < real_of_int (TIME_LIMIT w1)"
      using eq by simp
  qed
  from Cons.IH [OF a run] obtain vs where
    c: "candidates fuel G board depth color ms = map Some vs" and
    r: "r = Inr (Minimax_outcome (Minimax_record m v acc) ms vs)" and
    f': "frame (length ms) w1 w'" by blast
  have "candidates fuel G board depth color (m # ms) = map Some (v # vs)"
    using c vd by (simp add: candidates_def)
  moreover have "r = Inr (Minimax_outcome acc (m # ms) (v # vs))"
    using r by (simp add: Minimax_outcome_def)
  moreover have "frame (length (m # ms)) w w'"
    using frame_trans [OF f f'] by simp
  ultimately show ?case by blast
qed

lemma Minimax_loop_cases:
  assumes "Minimax_loop fuel G ms board depth color be start acc w = Some (r, w')"
  shows "r = Inr (4, None) \<or>
         (\<exists>vs. candidates fuel G board depth color ms = map Some vs \<and>
            r = Inr (Minimax_outcome acc ms vs))"
  using assms
proof (induction ms arbitrary: acc w)
  case Nil
  then show ?case
    by (cases acc) (auto simp: candidates_def Minimax_outcome_def)
next
  case (Cons m ms)
  show ?case
  proof (cases "clock w (ticks w) - start < real_of_int (TIME_LIMIT w)")
    case True
    from Minimax_loop_explore [OF True Cons.prems] obtain v w1 where
      vd: "AND_verdict fuel G (play_move_gomoku G board m color) (depth - 1)
             (opposite_color color) = Some v" and
      run: "Minimax_loop fuel G ms board depth color be start (Minimax_record m v acc) w1 = Some (r, w')"
      by blast
    from Cons.IH [OF run] show ?thesis
    proof
      assume "r = Inr (4, None)"
      then show ?thesis by simp
    next
      assume "\<exists>vs. candidates fuel G board depth color ms = map Some vs \<and>
            r = Inr (Minimax_outcome (Minimax_record m v acc) ms vs)"
      then obtain vs where c: "candidates fuel G board depth color ms = map Some vs"
        and r: "r = Inr (Minimax_outcome (Minimax_record m v acc) ms vs)" by blast
      have "candidates fuel G board depth color (m # ms) = map Some (v # vs)"
        using c vd by (simp add: candidates_def)
      moreover have "r = Inr (Minimax_outcome acc (m # ms) (v # vs))"
        using r by (simp add: Minimax_outcome_def)
      ultimately show ?thesis by blast
    qed
  next
    case False
    then have "Minimax_loop fuel G (m # ms) board depth color be start acc w =
        Some (Inr (4, None), w\<lparr>ticks := Suc (ticks w)\<rparr>)"
      by (intro Minimax_loop_timeout) simp
    with Cons.prems show ?thesis by simp
  qed
qed

section \<open>The driver as a whole\<close>

lemma Minimax_decided:
  "check_game_end_gomoku G board = (True, opposite_color color) \<Longrightarrow>
   Minimax fuel G board depth color w = Some (Inr (0, None), w\<lparr>ticks := Suc (ticks w)\<rparr>)"
  by (simp add: Minimax_def time_time_def)

lemma Minimax_undecided:
  "check_game_end_gomoku G board \<noteq> (True, opposite_color color) \<Longrightarrow>
   Minimax fuel G board depth color w =
     Minimax_loop fuel G (generate_legal_moves_gomoku G board) board depth color INFINITY
       (clock w (ticks w)) (0, None, 0, NINFINITY) (w\<lparr>ticks := Suc (ticks w)\<rparr>)"
  by (cases "check_game_end_gomoku G board") (auto simp: Minimax_def time_time_def)

lemma Minimax_total:
  assumes "1 \<le> depth" "nat depth \<le> fuel"
  shows "Minimax fuel G board depth color w \<noteq> None"
proof (cases "check_game_end_gomoku G board = (True, opposite_color color)")
  case True
  then show ?thesis by (simp add: Minimax_decided)
next
  case False
  from assms have d: "0 \<le> depth - 1" "nat (depth - 1) < fuel" by auto
  have "\<And>b c al be w. MinimaxBooleanAND fuel G b (depth - 1) c al be w \<noteq> None"
    by (rule nodes_total [OF d, THEN conjunct2])
  then show ?thesis
    unfolding Minimax_undecided [OF False] by (rule Minimax_loop_total)
qed

lemma Minimax_frame:
  assumes "Minimax fuel G board depth color w = Some (r, w')"
  shows "\<exists>out k. r = Inr out \<and> frame k w w'"
proof (cases "check_game_end_gomoku G board = (True, opposite_color color)")
  case True
  with assms frame_tick [of w] show ?thesis by (auto simp: Minimax_decided)
next
  case False
  from assms have "Minimax_loop fuel G (generate_legal_moves_gomoku G board) board depth color
      INFINITY (clock w (ticks w)) (0, None, 0, NINFINITY) (w\<lparr>ticks := Suc (ticks w)\<rparr>) = Some (r, w')"
    by (simp add: Minimax_undecided [OF False])
  from Minimax_loop_frame [OF this] obtain out k where
    "r = Inr out" "frame k (w\<lparr>ticks := Suc (ticks w)\<rparr>) w'"
    by blast
  with frame_trans [OF frame_tick] show ?thesis by blast
qed

lemma Minimax_cases:
  assumes "Minimax fuel G board depth color w = Some (r, w')"
  shows "r = Inr (4, None) \<or> r = Inr (0, None) \<and>
           check_game_end_gomoku G board = (True, opposite_color color) \<or>
         check_game_end_gomoku G board \<noteq> (True, opposite_color color) \<and>
         (\<exists>vs. candidates fuel G board depth color (generate_legal_moves_gomoku G board) = map Some vs \<and>
            r = Inr (Minimax_outcome (0, None, 0, NINFINITY) (generate_legal_moves_gomoku G board) vs))"
proof (cases "check_game_end_gomoku G board = (True, opposite_color color)")
  case True
  with assms show ?thesis by (simp add: Minimax_decided)
next
  case False
  from assms have "Minimax_loop fuel G (generate_legal_moves_gomoku G board) board depth color
      INFINITY (clock w (ticks w)) (0, None, 0, NINFINITY) (w\<lparr>ticks := Suc (ticks w)\<rparr>) = Some (r, w')"
    by (simp add: Minimax_undecided [OF False])
  from Minimax_loop_cases [OF this] False show ?thesis by blast
qed

section \<open>What the driver keeps\<close>

lemma first_best_win_new:
  assumes "\<forall>x \<in> set xs. proves_win x \<longrightarrow> score x < p" "0 < p"
  shows "first_best_win (xs @ [(m, True, col, p)]) m p"
  unfolding first_best_win_def
  using assms by (intro exI [of _ xs] exI [of _ col] exI [of _ "[]"]) simp

lemma first_best_win_keep:
  assumes "first_best_win xs m p" "proves_win x \<longrightarrow> score x \<le> p"
  shows "first_best_win (xs @ [x]) m p"
proof -
  from assms(1) obtain pre col post where
    xs: "xs = pre @ (m, True, col, p) # post" and p: "0 < p"
    and pre: "\<forall>x \<in> set pre. proves_win x \<longrightarrow> score x < p"
    and post: "\<forall>x \<in> set post. proves_win x \<longrightarrow> score x \<le> p"
    unfolding first_best_win_def by blast
  have "xs @ [x] = pre @ (m, True, col, p) # (post @ [x])" using xs by simp
  moreover have "\<forall>y \<in> set (post @ [x]). proves_win y \<longrightarrow> score y \<le> p"
    using post assms(2) by simp
  ultimately show ?thesis unfolding first_best_win_def using p pre by blast
qed

lemma first_best_win_bound:
  assumes "first_best_win xs m p" "x \<in> set xs" "proves_win x"
  shows "score x \<le> p \<and> 0 < p"
proof -
  from assms(1) obtain pre col post where
    xs: "xs = pre @ (m, True, col, p) # post" and p: "0 < p"
    and pre: "\<forall>x \<in> set pre. proves_win x \<longrightarrow> score x < p"
    and post: "\<forall>x \<in> set post. proves_win x \<longrightarrow> score x \<le> p"
    unfolding first_best_win_def by blast
  from assms(2) xs have "x \<in> set pre \<or> x = (m, True, col, p) \<or> x \<in> set post" by auto
  then show ?thesis using pre post assms(3) p by (auto simp: score_def)
qed

lemma last_zero_new: "last_zero (xs @ [(m, win, col, 0)]) m"
  unfolding last_zero_def
  by (intro exI [of _ xs] exI [of _ win] exI [of _ col] exI [of _ "[]"]) simp

lemma last_zero_keep:
  assumes "last_zero xs m" "score x \<noteq> 0"
  shows "last_zero (xs @ [x]) m"
proof -
  from assms(1) obtain pre win col post where
    xs: "xs = pre @ (m, win, col, 0) # post" and post: "\<forall>x \<in> set post. score x \<noteq> 0"
    unfolding last_zero_def by blast
  have "xs @ [x] = pre @ (m, win, col, 0) # (post @ [x])" using xs by simp
  moreover have "\<forall>y \<in> set (post @ [x]). score y \<noteq> 0" using post assms(2) by simp
  ultimately show ?thesis unfolding last_zero_def by blast
qed

lemma no_win_snoc: "no_win (xs @ [x]) = (no_win xs \<and> \<not> (proves_win x \<and> 0 < score x))"
  unfolding no_win_def by auto

lemma record_inv_step:
  assumes inv: "record_inv xs acc"
  shows "record_inv (xs @ [(m, v)]) (Minimax_record m v acc)"
proof -
  obtain iw bm bp al where acc: "acc = (iw, bm, bp, al)" by (cases acc)
  obtain win col p where v: "v = (win, col, p)" by (cases v)
  have sel: "proves_win (m, v) = win" "score (m, v) = p"
    by (simp_all add: v proves_win_def score_def)
  from inv acc consider
    (won) m0 where "iw = 2" "bm = Some m0" "first_best_win xs m0 bp"
    | (draw) m0 where "iw = 1" "bp = 0" "no_win xs" "bm = Some m0" "last_zero xs m0"
    | (undecided) "iw = 0" "bp = 0" "bm = None" "no_win xs" "\<forall>x \<in> set xs. score x \<noteq> 0"
    unfolding record_inv_def by auto
  then show ?thesis
  proof cases
    case won
    show ?thesis
    proof (cases "win \<and> bp < p")
      case True
      then have r: "Minimax_record m v acc = (2, Some m, p, p)" using acc v by simp
      have "\<forall>x \<in> set xs. proves_win x \<longrightarrow> score x < p"
        using first_best_win_bound [OF won(3)] True by fastforce
      moreover have "0 < p" using first_best_win_bound [OF won(3)] True won(3)
        unfolding first_best_win_def by auto
      ultimately have "first_best_win (xs @ [(m, True, col, p)]) m p"
        by (rule first_best_win_new)
      then show ?thesis unfolding r record_inv_def using v True by simp
    next
      case False
      then have r: "Minimax_record m v acc = (2, bm, bp, al)" using acc v won(1) by auto
      from False sel have "proves_win (m, v) \<longrightarrow> score (m, v) \<le> bp" by auto
      from first_best_win_keep [OF won(3) this]
      show ?thesis unfolding r record_inv_def using won(2) by simp
    qed
  next
    case draw
    show ?thesis
    proof (cases "win \<and> 0 < p")
      case True
      then have r: "Minimax_record m v acc = (2, Some m, p, p)" using acc v draw(2) by simp
      have "\<forall>x \<in> set xs. proves_win x \<longrightarrow> score x < p"
        using draw(3) True unfolding no_win_def by fastforce
      then have "first_best_win (xs @ [(m, True, col, p)]) m p"
        using True by (intro first_best_win_new) simp_all
      then show ?thesis unfolding r record_inv_def using v True by simp
    next
      case nowin: False
      have nw: "no_win (xs @ [(m, v)])" using draw(3) nowin sel by (simp add: no_win_snoc)
      show ?thesis
      proof (cases "p = 0")
        case True
        then have r: "Minimax_record m v acc = (1, Some m, 0, al)"
          using acc v draw(1,2) nowin by auto
        show ?thesis unfolding r record_inv_def using nw v True last_zero_new [of xs m win col]
          by simp
      next
        case False
        then have r: "Minimax_record m v acc = (1, bm, 0, al)"
          using acc v draw(1,2) nowin by auto
        from False sel have "score (m, v) \<noteq> 0" by simp
        from last_zero_keep [OF draw(5) this]
        show ?thesis unfolding r record_inv_def using nw draw(4) by simp
      qed
    qed
  next
    case undecided
    show ?thesis
    proof (cases "win \<and> 0 < p")
      case True
      then have r: "Minimax_record m v acc = (2, Some m, p, p)" using acc v undecided(2) by simp
      have "\<forall>x \<in> set xs. proves_win x \<longrightarrow> score x < p"
        using undecided(4) True unfolding no_win_def by fastforce
      then have "first_best_win (xs @ [(m, True, col, p)]) m p"
        using True by (intro first_best_win_new) simp_all
      then show ?thesis unfolding r record_inv_def using v True by simp
    next
      case nowin: False
      have nw: "no_win (xs @ [(m, v)])" using undecided(4) nowin sel by (simp add: no_win_snoc)
      show ?thesis
      proof (cases "p = 0")
        case True
        then have r: "Minimax_record m v acc = (1, Some m, 0, al)"
          using acc v undecided(1,2) nowin by auto
        show ?thesis unfolding r record_inv_def using nw v True last_zero_new [of xs m win col]
          by simp
      next
        case False
        then have r: "Minimax_record m v acc = (0, None, 0, al)"
          using acc v undecided(1,2,3) nowin by auto
        show ?thesis unfolding r record_inv_def using nw undecided(5) False sel by simp
      qed
    qed
  qed
qed

lemma record_inv_foldl:
  "record_inv xs (foldl (\<lambda>a (m, v). Minimax_record m v a) (0, None, 0, al) xs)"
proof (induction xs rule: rev_induct)
  case Nil
  show ?case by (simp add: record_inv_def no_win_def)
next
  case (snoc x xs)
  obtain m v where x: "x = (m, v)" by (cases x)
  from record_inv_step [OF snoc.IH, of m v] show ?case by (simp add: x)
qed

lemma Minimax_outcome_chosen:
  "Minimax_chosen (zip ms vs) (Minimax_outcome (0, None, 0, al) ms vs)"
proof -
  obtain iw bm bp al' where
    f: "foldl (\<lambda>a (m, v). Minimax_record m v a) (0, None, 0, al) (zip ms vs) = (iw, bm, bp, al')"
    using prod_cases4 by blast
  from record_inv_foldl [of "zip ms vs" al] f have "Minimax_chosen (zip ms vs) (iw, bm)"
    unfolding record_inv_def Minimax_chosen_def by auto
  with f show ?thesis by (simp add: Minimax_outcome_def)
qed

lemma find_after_none:
  "\<forall>x \<in> set pre. \<not> P x \<Longrightarrow> List.find P (pre @ ys) = List.find P ys"
  by (induction pre) simp_all

lemma first_best_win_expected:
  assumes "first_best_win xs m p"
  shows "Minimax_expected xs = (2, Some m)"
proof -
  from assms obtain pre col post where
    xs: "xs = pre @ (m, True, col, p) # post" and p: "0 < p"
    and pre: "\<forall>x \<in> set pre. proves_win x \<longrightarrow> score x < p"
    and post: "\<forall>x \<in> set post. proves_win x \<longrightarrow> score x \<le> p"
    unfolding first_best_win_def by blast
  let ?x = "(m, True, col, p)"
  let ?wins = "filter (\<lambda>x. proves_win x \<and> 0 < score x) xs"
  have x: "proves_win ?x" "score ?x = p" by (simp_all add: proves_win_def score_def)
  have mem: "?x \<in> set ?wins" using x p xs by simp
  then have ne: "?wins \<noteq> []" by (metis empty_iff empty_set)
  have le: "\<forall>y \<in> set ?wins. score y \<le> p"
  proof
    fix y assume "y \<in> set ?wins"
    then have y: "y \<in> set xs" "proves_win y" by simp_all
    from y(1) have "y \<in> set pre \<or> y = ?x \<or> y \<in> set post" unfolding xs by auto
    with pre post y(2) x(2) show "score y \<le> p" by (elim disjE) auto
  qed
  have "Max (set (map score ?wins)) = p"
  proof (rule Max_eqI)
    show "finite (set (map score ?wins))" by simp
    show "\<And>y. y \<in> set (map score ?wins) \<Longrightarrow> y \<le> p" using le by auto
    show "p \<in> set (map score ?wins)" using mem x(2) by (metis image_eqI set_map)
  qed
  moreover have "find (\<lambda>y. proves_win y \<and> score y = p) xs = Some ?x"
  proof -
    have "\<forall>y \<in> set pre. \<not> (proves_win y \<and> score y = p)"
      using pre by auto
    from find_after_none [of pre "\<lambda>y. proves_win y \<and> score y = p", OF this]
    show ?thesis unfolding xs using x by simp
  qed
  ultimately show ?thesis using ne by (simp add: Minimax_expected_def Let_def)
qed

lemma last_zero_expected:
  assumes "no_win xs" "last_zero xs m"
  shows "Minimax_expected xs = (1, Some m)"
proof -
  from assms(2) obtain pre win col post where
    xs: "xs = pre @ (m, win, col, 0) # post" and post: "\<forall>x \<in> set post. score x \<noteq> 0"
    unfolding last_zero_def by blast
  have "filter (\<lambda>x. proves_win x \<and> 0 < score x) xs = []"
    using assms(1) unfolding no_win_def by (auto simp: filter_empty_conv)
  moreover have "filter (\<lambda>x. score x = 0) post = []"
    using post by (auto simp: filter_empty_conv)
  then have "filter (\<lambda>x. score x = 0) xs = filter (\<lambda>x. score x = 0) pre @ [(m, win, col, 0)]"
    unfolding xs by (simp add: score_def)
  ultimately show ?thesis by (simp add: Minimax_expected_def Let_def)
qed

lemma Minimax_chosen_expected:
  assumes "Minimax_chosen xs out"
  shows "out = Minimax_expected xs"
proof -
  from assms consider
    (won) m p where "first_best_win xs m p" "out = (2, Some m)"
    | (draw) m where "no_win xs" "last_zero xs m" "out = (1, Some m)"
    | (undecided) "no_win xs" "\<forall>x \<in> set xs. score x \<noteq> 0" "out = (0, None)"
    unfolding Minimax_chosen_def by blast
  then show ?thesis
  proof cases
    case won
    then show ?thesis by (simp add: first_best_win_expected)
  next
    case draw
    then show ?thesis by (simp add: last_zero_expected)
  next
    case undecided
    have "filter (\<lambda>x. proves_win x \<and> 0 < score x) xs = []"
      using undecided(1) unfolding no_win_def by (auto simp: filter_empty_conv)
    moreover have "filter (\<lambda>x. score x = 0) xs = []"
      using undecided(2) by (auto simp: filter_empty_conv)
    ultimately show ?thesis using undecided(3) by (simp add: Minimax_expected_def Let_def)
  qed
qed

section \<open>One step of a node's loop\<close>

lemma AND_loop_step:
  assumes "OR_verdict fuel G (play_move_gomoku G board m color) (depth - 1) (opposite_color color)
      = Some v"
  shows "\<exists>w2. frame 0 w w2 \<and>
    (\<forall>ms. MinimaxBooleanAND_loop (MinimaxBooleanOR fuel G) G (m # ms) board depth color al be wp w =
       (if \<not> seen_win (opposite_color color) v
        then Some (Inr (False, opposite_color color, seen_score (opposite_color color) v), w2)
        else MinimaxBooleanAND_loop (MinimaxBooleanOR fuel G) G ms board depth color al
               (if min wp (seen_score (opposite_color color) v) \<le> be
                then seen_score (opposite_color color) v else be)
               (min wp (seen_score (opposite_color color) v)) w2))"
proof -
  from OR_verdict_run [OF assms, of al be "save_board board w"] obtain w1 where
    c: "MinimaxBooleanOR fuel G (play_move_gomoku G board m color) (depth - 1) (opposite_color color)
          al be (save_board board w) = Some (Inr v, w1)"
    and f: "frame 0 (save_board board w) w1" by blast
  from frame_push_pop [OF f] obtain w2 where u: "undo w1 = (Inr board, w2)" and f2: "frame 0 w w2"
    by blast
  obtain win col points where v: "v = (win, col, points)" by (cases v)
  have "\<forall>ms. MinimaxBooleanAND_loop (MinimaxBooleanOR fuel G) G (m # ms) board depth color al be wp w =
       (if \<not> seen_win (opposite_color color) v
        then Some (Inr (False, opposite_color color, seen_score (opposite_color color) v), w2)
        else MinimaxBooleanAND_loop (MinimaxBooleanOR fuel G) G ms board depth color al
               (if min wp (seen_score (opposite_color color) v) \<le> be
                then seen_score (opposite_color color) v else be)
               (min wp (seen_score (opposite_color color) v)) w2)"
    using c u v by (simp add: Let_def seen_win_def seen_score_def min_def)
  with f2 show ?thesis by blast
qed

lemma AND_loop_short_circuit:
  assumes pre: "\<forall>m' \<in> set pre. \<exists>p. OR_verdict fuel G (play_move_gomoku G board m' color) (depth - 1)
      (opposite_color color) = Some (True, opposite_color color, p)"
    and m: "OR_verdict fuel G (play_move_gomoku G board m color) (depth - 1) (opposite_color color)
      = Some v"
    and fail: "\<not> seen_win (opposite_color color) v"
  shows "\<exists>w'. (\<forall>post. MinimaxBooleanAND_loop (MinimaxBooleanOR fuel G) G (pre @ m # post) board depth
      color al be wp w =
      Some (Inr (False, opposite_color color, seen_score (opposite_color color) v), w'))"
  using pre
proof (induction pre arbitrary: be wp w)
  case Nil
  from AND_loop_step [OF m, of w al be wp] fail show ?case by auto
next
  case (Cons m' pre)
  from Cons.prems obtain p where
    v': "OR_verdict fuel G (play_move_gomoku G board m' color) (depth - 1) (opposite_color color)
      = Some (True, opposite_color color, p)" by auto
  have sw: "seen_win (opposite_color color) (True, opposite_color color, p)"
    by (simp add: seen_win_def)
  from AND_loop_step [OF v', of w al be wp] sw obtain w2 be' wp' where
    step: "\<forall>ms. MinimaxBooleanAND_loop (MinimaxBooleanOR fuel G) G (m' # ms) board depth color al be wp w =
       MinimaxBooleanAND_loop (MinimaxBooleanOR fuel G) G ms board depth color al be' wp' w2"
    by auto
  from Cons.prems have "\<forall>m' \<in> set pre. \<exists>p. OR_verdict fuel G (play_move_gomoku G board m' color)
      (depth - 1) (opposite_color color) = Some (True, opposite_color color, p)" by simp
  from Cons.IH [OF this, of be' wp' w2] step show ?case by simp
qed

lemma AND_loop_all_win:
  assumes "map (\<lambda>m. OR_verdict fuel G (play_move_gomoku G board m color) (depth - 1)
      (opposite_color color)) ms = map (\<lambda>p. Some (True, opposite_color color, p)) ps"
  shows "\<exists>w'. MinimaxBooleanAND_loop (MinimaxBooleanOR fuel G) G ms board depth color al be wp w =
      Some (Inr (True, opposite_color color, Min (insert wp (set ps))), w')"
  using assms
proof (induction ms arbitrary: ps be wp w)
  case Nil
  then show ?case by simp
next
  case (Cons m ms)
  from Cons.prems obtain p ps' where ps: "ps = p # ps'"
    and v: "OR_verdict fuel G (play_move_gomoku G board m color) (depth - 1) (opposite_color color)
      = Some (True, opposite_color color, p)"
    and rest: "map (\<lambda>m. OR_verdict fuel G (play_move_gomoku G board m color) (depth - 1)
      (opposite_color color)) ms = map (\<lambda>p. Some (True, opposite_color color, p)) ps'"
    by (cases ps) auto
  have sw: "seen_win (opposite_color color) (True, opposite_color color, p)"
    "seen_score (opposite_color color) (True, opposite_color color, p) = p"
    by (simp_all add: seen_win_def seen_score_def)
  from AND_loop_step [OF v, of w al be wp] sw obtain w2 be' where
    step: "MinimaxBooleanAND_loop (MinimaxBooleanOR fuel G) G (m # ms) board depth color al be wp w =
       MinimaxBooleanAND_loop (MinimaxBooleanOR fuel G) G ms board depth color al be' (min wp p) w2"
    by auto
  from Cons.IH [OF rest, of be' "min wp p" w2] obtain w' where
    "MinimaxBooleanAND_loop (MinimaxBooleanOR fuel G) G ms board depth color al be' (min wp p) w2 =
      Some (Inr (True, opposite_color color, Min (insert (min wp p) (set ps'))), w')" by blast
  moreover have "Min (insert (min wp p) (set ps')) = Min (insert wp (set ps))"
  proof -
    have "Min (insert wp (set ps)) = Min (insert wp (insert p (set ps')))" by (simp add: ps)
    also have "\<dots> = min wp (Min (insert p (set ps')))" by (rule Min_insert) simp_all
    also have "\<dots> = min wp (if set ps' = {} then p else min p (Min (set ps')))"
      by (simp add: Min_insert)
    also have "\<dots> = Min (insert (min wp p) (set ps'))"
      by (cases "set ps' = {}") (simp_all add: Min_insert min.assoc)
    finally show ?thesis by simp
  qed
  ultimately show ?case using step by simp
qed




section \<open>Prefixes of the driver's loop, and a draw from a score of 0\<close>

lemma Minimax_loop_step:
  assumes t: "clock w (ticks w) - start < real_of_int (TIME_LIMIT w)"
    and vd: "AND_verdict fuel G (play_move_gomoku G board m color) (depth - 1)
      (opposite_color color) = Some v"
  shows "\<exists>w1. frame 1 w w1 \<and>
    (\<forall>ms. Minimax_loop fuel G (m # ms) board depth color be start acc w =
       Minimax_loop fuel G ms board depth color be start (Minimax_record m v acc) w1)"
proof -
  obtain iw bm bp al where acc: "acc = (iw, bm, bp, al)" by (cases acc)
  let ?w1 = "w\<lparr>ticks := Suc (ticks w)\<rparr>"
  let ?w2 = "print (PrintFloat (clock w (ticks w) - start)) ?w1"
  from AND_verdict_run [OF vd, of al be "save_board board ?w2"] obtain w3 where
    c: "MinimaxBooleanAND fuel G (play_move_gomoku G board m color) (depth - 1)
      (opposite_color color) al be (save_board board ?w2) = Some (Inr v, w3)"
    and f: "frame 0 (save_board board ?w2) w3" by blast
  from frame_push_pop [OF f] obtain w4 where u: "undo w3 = (Inr board, w4)" and f4: "frame 0 ?w2 w4"
    by blast
  have "frame (1 + 0) w ?w2"
    by (rule frame_trans [OF frame_tick frame_print])
  from frame_trans [OF this f4] have "frame 1 w w4" by simp
  moreover have "\<forall>ms. Minimax_loop fuel G (m # ms) board depth color be start acc w =
       Minimax_loop fuel G ms board depth color be start (Minimax_record m v acc) w4"
    using t acc c u by (simp add: time_time_def)
  ultimately show ?thesis by blast
qed

lemma Minimax_loop_timeout_prefix:
  assumes "k < length ms"
    and "\<forall>i<k. clock w (ticks w + i) - start < real_of_int (TIME_LIMIT w)"
    and "real_of_int (TIME_LIMIT w) \<le> clock w (ticks w + k) - start"
    and "Minimax_loop fuel G ms board depth color be start acc w = Some (r, w')"
  shows "\<exists>out0 w0. Minimax_loop fuel G (take k ms) board depth color be start acc w =
            Some (Inr out0, w0) \<and> w' = w0\<lparr>ticks := Suc (ticks w0)\<rparr>"
  using assms
proof (induction ms arbitrary: k acc w)
  case Nil
  then show ?case by simp
next
  case (Cons m ms)
  show ?case
  proof (cases k)
    case 0
    with Cons.prems(3) have "Minimax_loop fuel G (m # ms) board depth color be start acc w =
        Some (Inr (4, None), w\<lparr>ticks := Suc (ticks w)\<rparr>)"
      by (intro Minimax_loop_timeout) simp
    with Cons.prems(4) have "w' = w\<lparr>ticks := Suc (ticks w)\<rparr>" by simp
    with 0 show ?thesis by (cases acc) simp
  next
    case (Suc j)
    with Cons.prems(2) have t: "clock w (ticks w) - start < real_of_int (TIME_LIMIT w)"
      by (metis add.right_neutral zero_less_Suc)
    from Minimax_loop_explore [OF t Cons.prems(4)] obtain v where
      vd: "AND_verdict fuel G (play_move_gomoku G board m color) (depth - 1)
             (opposite_color color) = Some v" by blast
    from Minimax_loop_step [OF t vd, of be acc] obtain w1 where
      f: "frame 1 w w1" and
      step: "\<forall>ms. Minimax_loop fuel G (m # ms) board depth color be start acc w =
       Minimax_loop fuel G ms board depth color be start (Minimax_record m v acc) w1" by blast
    from step Cons.prems(4) have
      run: "Minimax_loop fuel G ms board depth color be start (Minimax_record m v acc) w1 = Some (r, w')"
      by simp
    from frame_fields [OF f] have eq: "TIME_LIMIT w1 = TIME_LIMIT w" "clock w1 = clock w"
      "ticks w1 = ticks w + 1" by simp_all
    have j: "j < length ms" using Cons.prems(1) Suc by simp
    have a: "\<forall>i<j. clock w1 (ticks w1 + i) - start < real_of_int (TIME_LIMIT w1)"
    proof (intro allI impI)
      fix i assume "i < j"
      then have "Suc i < k" using Suc by simp
      with Cons.prems(2) have "clock w (ticks w + Suc i) - start < real_of_int (TIME_LIMIT w)"
        by blast
      then show "clock w1 (ticks w1 + i) - start < real_of_int (TIME_LIMIT w1)"
        using eq by simp
    qed
    have b: "real_of_int (TIME_LIMIT w1) \<le> clock w1 (ticks w1 + j) - start"
      using Cons.prems(3) Suc eq by simp
    from Cons.IH [OF j a b run] obtain out0 w0 where
      "Minimax_loop fuel G (take j ms) board depth color be start (Minimax_record m v acc) w1 =
         Some (Inr out0, w0)" "w' = w0\<lparr>ticks := Suc (ticks w0)\<rparr>" by blast
    with step Suc show ?thesis by simp
  qed
qed




section \<open>The snapshot stack\<close>

text \<open>
  C5 (amended). When \<^verbatim>\<open>undo\<close> is called on an empty snapshot stack it appends to the
  debug log and prints \<^verbatim>\<open>Stack is empty!\<close>, and then \<^verbatim>\<open>stack.pop()\<close> raises
  \<^verbatim>\<open>IndexError\<close>: no value, absent or otherwise, reaches the caller.
\<close>

theorem undo_empty_raises:
  "stack w = [] \<Longrightarrow>
   undo w = (Inl IndexError,
             w\<lparr>debug := debug w @ [''Undid board''],
               stdout := stdout w @ [PrintStr ''Stack is empty!'']\<rparr>)"
  by (simp add: undo_def print_def Let_def)

theorem undo_empty_raises_witness:
  "stack (initial_world :: nat list world) = [] \<and>
   undo (initial_world :: nat list world) =
     (Inl IndexError,
      \<lparr>stack = [], debug = [''Undid board''], TIME_LIMIT = 1,
       stdout = [PrintStr ''Stack is empty!''], clock = (\<lambda>_. 0), ticks = 0\<rparr>)"
  using undo_empty_raises [of "initial_world :: nat list world"]
  by (simp add: initial_world_def)

text \<open>
  On the empty stack of the freshly imported module the call does not proceed with a
  value: its outcome is the raised \<^verbatim>\<open>IndexError\<close>.
\<close>

theorem undo_empty_counterexample:
  "fst (undo (initial_world :: nat list world)) = Inl IndexError \<and>
   fst (undo (initial_world :: nat list world)) \<noteq> Inr []"
  by (simp add: undo_def print_def initial_world_def Let_def)

text \<open>
  C3. Whenever a call of \<^verbatim>\<open>Minimax\<close> returns, by whichever path (decided position,
  timeout, end of the loop, with the early returns of the AND nodes below it), it has
  returned a value, the snapshot stack is the one it found, and the entries it added to the
  debug log contain as many pushes as pops. For a depth of at least 1 the call does return
  as soon as the bound on nested calls is at least the depth.
\<close>

theorem Minimax_stack_balance:
  "(\<forall>r w'. Minimax fuel G board depth color w = Some (r, w') \<longrightarrow>
      (\<exists>out. r = Inr out) \<and> stack w' = stack w \<and> length (stack w') = length (stack w) \<and>
      (\<exists>ds. debug w' = debug w @ ds \<and>
         count_list ds ''Stored board'' = count_list ds ''Undid board'')) \<and>
   (1 \<le> depth \<and> nat depth \<le> fuel \<longrightarrow>
      (\<exists>r w'. Minimax fuel G board depth color w = Some (r, w')))"
proof (intro conjI allI impI)
  fix r w'
  assume run: "Minimax fuel G board depth color w = Some (r, w')"
  from Minimax_frame [OF run] obtain out k where r: "r = Inr out" and f: "frame k w w'"
    by blast
  from r show "\<exists>out. r = Inr out" by blast
  from frame_fields [OF f] show "stack w' = stack w" by simp
  then show "length (stack w') = length (stack w)" by simp
  from frame_debug [OF f] show "\<exists>ds. debug w' = debug w @ ds \<and>
         count_list ds ''Stored board'' = count_list ds ''Undid board''"
    by (simp add: balanced_def)
next
  assume "1 \<le> depth \<and> nat depth \<le> fuel"
  then have "Minimax fuel G board depth color w \<noteq> None" by (simp add: Minimax_total)
  then show "\<exists>r w'. Minimax fuel G board depth color w = Some (r, w')" by auto
qed

theorem Minimax_stack_balance_witness:
  "Minimax 3
     (tree_game 2 [1, 2] (\<lambda>b. if b = [1, 1] then (True, Some BLACK, 5) else (False, Some BLACK, 0)))
     [] 3 (Some BLACK) (initial_world\<lparr>stack := [[7]]\<rparr>) =
   Some (Inr (1, Some 2),
         \<lparr>stack = [[7]],
          debug = [''Stored board'', ''Stored board'', ''Undid board'', ''Stored board'',
                   ''Undid board'', ''Undid board'', ''Stored board'', ''Stored board'',
                   ''Undid board'', ''Undid board''],
          TIME_LIMIT = 1,
          stdout = [PrintFloat 0, PrintInt 1, PrintInt 1, PrintFloat 0, PrintInt 1],
          clock = (\<lambda>_. 0), ticks = 3\<rparr>)"
  using Minimax_stack_balance [of 3
      "tree_game 2 [1, 2] (\<lambda>b. if b = [1, 1] then (True, Some BLACK, 5) else (False, Some BLACK, 0))"
      "[]" 3 "Some BLACK" "initial_world\<lparr>stack := [[7]]\<rparr>"]
  by (simp add: Minimax_def time_time_def tree_game_def initial_world_def save_board_def
      undo_def print_def Let_def INFINITY_def NINFINITY_def numeral_2_eq_2
      numeral_3_eq_3)

section \<open>Base cases\<close>

text \<open>
  C7. When the enumeration of legal moves is empty, both prover nodes return exactly what
  \<^verbatim>\<open>StatisticallyEvaluate(False)\<close> returns, whatever the depth. One level of calls is
  enough (no nested call is made), and the world is left as it was apart from the
  \<^verbatim>\<open>print(TIME_LIMIT)\<close> of the OR node: nothing is pushed or popped.
\<close>

theorem no_moves_base_case:
  "generate_legal_moves_gomoku G board = [] \<Longrightarrow>
   MinimaxBooleanOR (Suc fuel) G board depth color alpha beta w =
     Some (Inr (StatisticallyEvaluate G board (Some False)),
           w\<lparr>stdout := stdout w @ [PrintInt (TIME_LIMIT w)]\<rparr>) \<and>
   MinimaxBooleanAND (Suc fuel) G board depth color alpha beta w =
     Some (Inr (StatisticallyEvaluate G board (Some False)), w)"
  by (simp add: print_def)

theorem no_moves_base_case_witness:
  "generate_legal_moves_gomoku (tree_game 1 [1, 2] (\<lambda>b. (True, Some BLACK, 7))) [1] = [] \<and>
   MinimaxBooleanOR (Suc 0) (tree_game 1 [1, 2] (\<lambda>b. (True, Some BLACK, 7))) [1] 5 (Some BLACK)
       NINFINITY INFINITY initial_world =
     Some (Inr (True, Some BLACK, 7),
           \<lparr>stack = [], debug = [], TIME_LIMIT = 1, stdout = [PrintInt 1],
            clock = (\<lambda>_. 0), ticks = 0\<rparr>) \<and>
   MinimaxBooleanAND (Suc 0) (tree_game 1 [1, 2] (\<lambda>b. (True, Some BLACK, 7))) [1] 5 (Some BLACK)
       NINFINITY INFINITY initial_world =
     Some (Inr (True, Some BLACK, 7), initial_world)"
  using no_moves_base_case [of "tree_game 1 [1, 2] (\<lambda>b. (True, Some BLACK, 7))" "[1]" 0 5
      "Some BLACK" NINFINITY INFINITY initial_world]
  by (simp add: tree_game_def initial_world_def)

section \<open>The driver\<close>

text \<open>
  C8. When \<^verbatim>\<open>check_game_end_gomoku\<close> reports the position decided and the winner is the
  opponent of the colour to move, \<^verbatim>\<open>Minimax\<close> returns \<open>(0, None)\<close>. It does so with no
  nested call available (\<open>fuel\<close> may be \<open>0\<close>), and the world it leaves differs from the
  one it found only in the one clock reading taken for \<^verbatim>\<open>start_time\<close>: no elapsed-time
  check, no push, no print.
\<close>

theorem decided_for_opponent:
  "check_game_end_gomoku G board = (True, opposite_color color) \<Longrightarrow>
   Minimax fuel G board depth color w = Some (Inr (0, None), w\<lparr>ticks := Suc (ticks w)\<rparr>)"
  by (simp add: Minimax_def time_time_def)

theorem decided_for_opponent_witness:
  "check_game_end_gomoku (decided_game 1 [1, 2] (\<lambda>b. (False, None, 0))) [] =
     (True, opposite_color (Some BLACK)) \<and>
   Minimax 0 (decided_game 1 [1, 2] (\<lambda>b. (False, None, 0))) [] 2 (Some BLACK) initial_world =
     Some (Inr (0, None),
           \<lparr>stack = [], debug = [], TIME_LIMIT = 1, stdout = [], clock = (\<lambda>_. 0), ticks = 1\<rparr>)"
  using decided_for_opponent [of "decided_game 1 [1, 2] (\<lambda>b. (False, None, 0))" "[]" "Some BLACK"
      0 2 initial_world]
  by (simp add: decided_game_def tree_game_def initial_world_def)

text \<open>
  C2. Take a position that is not decided for the opponent, and let the elapsed-time
  check before candidate number \<open>k\<close> (counting from 0) be the first at which the elapsed
  time has reached \<^verbatim>\<open>TIME_LIMIT\<close>. Then a call of \<^verbatim>\<open>Minimax\<close> that returns, returns
  \<open>(4, None)\<close>, whatever was recorded for the \<open>k\<close> candidates before. The world it
  leaves is the world the driver's loop leaves after the first \<open>k\<close> candidates alone,
  with one more clock reading and nothing else: for the candidate at which the check
  fails, and for every later one, nothing is pushed, printed or searched. In particular
  the clock has been read \<open>k + 2\<close> times and the stack is as it was, and for \<open>k = 0\<close>
  the world differs from the one the call found in the two clock readings only. The call
  does return when \<open>k = 0\<close>, or when the depth is at least 1 and the bound on nested
  calls at least the depth.
\<close>

theorem Minimax_timeout_check:
  assumes nd: "check_game_end_gomoku G board \<noteq> (True, opposite_color color)"
    and k: "k < length (generate_legal_moves_gomoku G board)"
    and before: "\<forall>i<k. clock w (ticks w + 1 + i) - clock w (ticks w) < real_of_int (TIME_LIMIT w)"
    and at: "real_of_int (TIME_LIMIT w) \<le> clock w (ticks w + 1 + k) - clock w (ticks w)"
  shows "(\<forall>r w'. Minimax fuel G board depth color w = Some (r, w') \<longrightarrow>
            r = Inr (4, None) \<and> ticks w' = ticks w + k + 2 \<and> stack w' = stack w \<and>
            (\<exists>out0 w0.
               Minimax_loop fuel G (take k (generate_legal_moves_gomoku G board)) board depth color
                 INFINITY (clock w (ticks w)) (0, None, 0, NINFINITY) (w\<lparr>ticks := Suc (ticks w)\<rparr>) =
                 Some (Inr out0, w0) \<and>
               w' = w0\<lparr>ticks := Suc (ticks w0)\<rparr>) \<and>
            (k = 0 \<longrightarrow> w' = w\<lparr>ticks := Suc (Suc (ticks w))\<rparr>)) \<and>
         (k = 0 \<or> (1 \<le> depth \<and> nat depth \<le> fuel) \<longrightarrow>
            (\<exists>w'. Minimax fuel G board depth color w = Some (Inr (4, None), w')))"
proof -
  let ?w1 = "w\<lparr>ticks := Suc (ticks w)\<rparr>"
  let ?ms = "generate_legal_moves_gomoku G board"
  have partial: "r = Inr (4, None) \<and> ticks w' = ticks w + k + 2 \<and> stack w' = stack w \<and>
            (\<exists>out0 w0.
               Minimax_loop fuel G (take k ?ms) board depth color
                 INFINITY (clock w (ticks w)) (0, None, 0, NINFINITY) ?w1 =
                 Some (Inr out0, w0) \<and>
               w' = w0\<lparr>ticks := Suc (ticks w0)\<rparr>) \<and>
            (k = 0 \<longrightarrow> w' = w\<lparr>ticks := Suc (Suc (ticks w))\<rparr>)"
    if run: "Minimax fuel G board depth color w = Some (r, w')" for r w'
  proof -
    from run have l: "Minimax_loop fuel G ?ms board depth color INFINITY (clock w (ticks w))
        (0, None, 0, NINFINITY) ?w1 = Some (r, w')"
      by (simp add: Minimax_undecided [OF nd])
    have a: "\<forall>i<k. clock ?w1 (ticks ?w1 + i) - clock w (ticks w) < real_of_int (TIME_LIMIT ?w1)"
      using before by simp
    have b: "real_of_int (TIME_LIMIT ?w1) \<le> clock ?w1 (ticks ?w1 + k) - clock w (ticks w)"
      using at by simp
    from Minimax_loop_times_out [OF k a b l] have r: "r = Inr (4, None)" and "frame (Suc k) ?w1 w'"
      by simp_all
    with frame_fields [of "Suc k" ?w1 w'] have f: "ticks w' = ticks w + k + 2" "stack w' = stack w"
      by simp_all
    from Minimax_loop_timeout_prefix [OF k a b l] obtain out0 w0 where
      p: "Minimax_loop fuel G (take k ?ms) board depth color
                 INFINITY (clock w (ticks w)) (0, None, 0, NINFINITY) ?w1 = Some (Inr out0, w0)"
        "w' = w0\<lparr>ticks := Suc (ticks w0)\<rparr>" by blast
    have "w' = w\<lparr>ticks := Suc (Suc (ticks w))\<rparr>" if "k = 0"
      using p that by auto
    with r f p show ?thesis by blast
  qed
  have total: "\<exists>w'. Minimax fuel G board depth color w = Some (Inr (4, None), w')"
    if "k = 0 \<or> (1 \<le> depth \<and> nat depth \<le> fuel)"
  proof -
    have "Minimax fuel G board depth color w \<noteq> None"
      using that
    proof
      assume "k = 0"
      with k at obtain m ms where "?ms = m # ms"
        and "real_of_int (TIME_LIMIT ?w1) \<le> clock ?w1 (ticks ?w1) - clock w (ticks w)"
        by (cases ?ms) auto
      then show ?thesis
        by (simp add: Minimax_undecided [OF nd] Minimax_loop_timeout
            del: not_None_eq Minimax_loop.simps)
    next
      assume "1 \<le> depth \<and> nat depth \<le> fuel"
      then show ?thesis by (simp add: Minimax_total del: not_None_eq)
    qed
    then obtain r w' where "Minimax fuel G board depth color w = Some (r, w')" by auto
    with partial show ?thesis by blast
  qed
  from partial total show ?thesis by blast
qed

text \<open>
  The witness: the first candidate proves a win and is recorded; the loop over it alone
  ends with the outcome \<open>(2, Some 1)\<close>. The check before the second candidate finds the
  budget used up, and the call returns \<open>(4, None)\<close> in the world that loop left, one
  clock reading later.
\<close>

theorem Minimax_timeout_check_witness:
  "check_game_end_gomoku (tree_game 1 [1, 2] (\<lambda>b. (True, Some BLACK, 5))) [] \<noteq>
     (True, opposite_color (Some BLACK)) \<and>
   1 < length (generate_legal_moves_gomoku (tree_game 1 [1, 2] (\<lambda>b. (True, Some BLACK, 5))) []) \<and>
   clock late_world 1 - clock late_world 0 < real_of_int (TIME_LIMIT late_world) \<and>
   real_of_int (TIME_LIMIT late_world) \<le> clock late_world 2 - clock late_world 0 \<and>
   Minimax_loop 2 (tree_game 1 [1, 2] (\<lambda>b. (True, Some BLACK, 5))) [1] [] 2 (Some BLACK) INFINITY 0
     (0, None, 0, NINFINITY) (late_world\<lparr>ticks := 1\<rparr>) =
   Some (Inr (2, Some 1),
         \<lparr>stack = [], debug = [''Stored board'', ''Undid board''], TIME_LIMIT = 1,
          stdout = [PrintFloat 0], clock = (\<lambda>n. if n < 2 then 0 else 3), ticks = 2\<rparr>) \<and>
   Minimax 2 (tree_game 1 [1, 2] (\<lambda>b. (True, Some BLACK, 5))) [] 2 (Some BLACK) late_world =
   Some (Inr (4, None),
         \<lparr>stack = [], debug = [''Stored board'', ''Undid board''], TIME_LIMIT = 1,
          stdout = [PrintFloat 0], clock = (\<lambda>n. if n < 2 then 0 else 3), ticks = 3\<rparr>)"
  using Minimax_timeout_check [of "tree_game 1 [1, 2] (\<lambda>b. (True, Some BLACK, 5))" "[]"
      "Some BLACK" 1 late_world 2 2]
  by (simp add: Minimax_def time_time_def tree_game_def initial_world_def late_world_def
      save_board_def undo_def print_def Let_def INFINITY_def NINFINITY_def numeral_2_eq_2)

text \<open>
  C6 (amended). With \<^verbatim>\<open>TIME_LIMIT\<close> set to 0 and a clock that does not run backwards
  between the first two readings, on a position that has at least one legal move and is
  not decided for the opponent, \<^verbatim>\<open>Minimax\<close> returns \<open>(4, None)\<close> at the first
  elapsed-time check: the world it leaves differs only in the two clock readings, nothing
  was pushed, and no nested call was needed (\<open>fuel\<close> may be \<open>0\<close>).
\<close>

theorem zero_budget_times_out:
  assumes "TIME_LIMIT w = 0"
    and "generate_legal_moves_gomoku G board \<noteq> []"
    and "check_game_end_gomoku G board \<noteq> (True, opposite_color color)"
    and "clock w (ticks w) \<le> clock w (Suc (ticks w))"
  shows "Minimax fuel G board depth color w =
           Some (Inr (4, None), w\<lparr>ticks := Suc (Suc (ticks w))\<rparr>)"
proof -
  from assms(2) obtain m ms where ms: "generate_legal_moves_gomoku G board = m # ms"
    by (cases "generate_legal_moves_gomoku G board") auto
  show ?thesis
    using assms(1,4)
    by (simp add: Minimax_undecided [OF assms(3)] ms Minimax_loop_timeout del: Minimax_loop.simps)
qed

theorem zero_budget_times_out_witness:
  "TIME_LIMIT (setGlobalTime 0 initial_world :: nat list world) = 0 \<and>
   generate_legal_moves_gomoku (tree_game 1 [1, 2] (\<lambda>b. (False, None, 0))) [] \<noteq> [] \<and>
   check_game_end_gomoku (tree_game 1 [1, 2] (\<lambda>b. (False, None, 0))) [] \<noteq>
     (True, opposite_color (Some BLACK)) \<and>
   clock (setGlobalTime 0 initial_world :: nat list world) 0 \<le>
     clock (setGlobalTime 0 initial_world :: nat list world) 1 \<and>
   Minimax 0 (tree_game 1 [1, 2] (\<lambda>b. (False, None, 0))) [] 2 (Some BLACK)
     (setGlobalTime 0 initial_world) =
   Some (Inr (4, None),
         \<lparr>stack = [], debug = [], TIME_LIMIT = 0, stdout = [], clock = (\<lambda>_. 0), ticks = 2\<rparr>)"
  using zero_budget_times_out [of "setGlobalTime 0 initial_world"
      "tree_game 1 [1, 2] (\<lambda>b. (False, None, 0))" "[]" "Some BLACK" 0 2]
  by (simp add: Minimax_def time_time_def tree_game_def initial_world_def save_board_def
      undo_def print_def Let_def setGlobalTime_def INFINITY_def NINFINITY_def)

text \<open>
  With the budget at 0, a position without legal moves gets \<open>(0, None)\<close>, not the
  timeout: the loop body, and with it the elapsed-time check, is never entered. So does a
  position already decided for the opponent.
\<close>

theorem zero_budget_counterexample:
  "Minimax 2 (tree_game 0 [1, 2] (\<lambda>b. (False, None, 0))) [] 2 (Some BLACK)
     (setGlobalTime 0 initial_world) =
   Some (Inr (0, None),
         \<lparr>stack = [], debug = [], TIME_LIMIT = 0, stdout = [], clock = (\<lambda>_. 0), ticks = 1\<rparr>) \<and>
   Minimax 2 (decided_game 1 [1, 2] (\<lambda>b. (False, None, 0))) [] 2 (Some BLACK)
     (setGlobalTime 0 initial_world) =
   Some (Inr (0, None),
         \<lparr>stack = [], debug = [], TIME_LIMIT = 0, stdout = [], clock = (\<lambda>_. 0), ticks = 1\<rparr>)"
  by (simp add: Minimax_def time_time_def tree_game_def initial_world_def save_board_def
      undo_def print_def Let_def decided_game_def setGlobalTime_def INFINITY_def
      NINFINITY_def numeral_2_eq_2)

text \<open>
  C9 (amended). When \<^verbatim>\<open>Minimax\<close> is called twice in a row on the same position and
  neither call returns the timeout \<open>(4, None)\<close>, both calls return the same outcome. For a
  depth of at least 1 both calls return as soon as the bound on nested calls is at least
  the depth.
\<close>

theorem Minimax_twice_same:
  "(\<forall>out1 out2. Minimax_twice fuel G board depth color w = Some (out1, out2) \<longrightarrow>
      out1 \<noteq> (4, None) \<longrightarrow> out2 \<noteq> (4, None) \<longrightarrow> out1 = out2) \<and>
   (1 \<le> depth \<and> nat depth \<le> fuel \<longrightarrow>
      (\<exists>out1 out2. Minimax_twice fuel G board depth color w = Some (out1, out2)))"
proof (intro conjI allI impI)
  fix out1 out2
  assume tw: "Minimax_twice fuel G board depth color w = Some (out1, out2)"
    and n1: "out1 \<noteq> (4, None)" and n2: "out2 \<noteq> (4, None)"
  from tw obtain w1 w2 where
    r1: "Minimax fuel G board depth color w = Some (Inr out1, w1)" and
    r2: "Minimax fuel G board depth color w1 = Some (Inr out2, w2)"
    by (auto simp: Minimax_twice_def split: option.splits sum.splits)
  from Minimax_cases [OF r1] Minimax_cases [OF r2] n1 n2 show "out1 = out2"
    by (elim disjE) auto
next
  assume d: "1 \<le> depth \<and> nat depth \<le> fuel"
  then have "Minimax fuel G board depth color w \<noteq> None" by (simp add: Minimax_total)
  then obtain r1 w1 where r1: "Minimax fuel G board depth color w = Some (r1, w1)" by auto
  from Minimax_frame [OF r1] obtain out1 where o1: "r1 = Inr out1" by blast
  from d have "Minimax fuel G board depth color w1 \<noteq> None" by (simp add: Minimax_total)
  then obtain r2 w2 where r2: "Minimax fuel G board depth color w1 = Some (r2, w2)" by auto
  from Minimax_frame [OF r2] obtain out2 where o2: "r2 = Inr out2" by blast
  from r1 o1 r2 o2 show "\<exists>out1 out2. Minimax_twice fuel G board depth color w = Some (out1, out2)"
    by (simp add: Minimax_twice_def)
qed

theorem Minimax_twice_same_witness:
  "Minimax_twice 2 (tree_game 1 [1, 2] (\<lambda>b. (False, None, 0))) [] 2 (Some BLACK) initial_world =
   Some ((1, Some 2), (1, Some 2))"
  using Minimax_twice_same [of 2 "tree_game 1 [1, 2] (\<lambda>b. (False, None, 0))" "[]" 2 "Some BLACK"
      initial_world]
  by (simp add: Minimax_def time_time_def tree_game_def initial_world_def save_board_def
      undo_def print_def Let_def Minimax_twice_def INFINITY_def NINFINITY_def
      numeral_2_eq_2)

text \<open>
  The same two calls under a clock that jumps from 0 to 5 after the first call: the
  position and the stack are unchanged, the first call returns a draw with move 2, the
  second finds the budget of one second used up at its first check and returns the
  timeout.
\<close>

theorem Minimax_twice_counterexample:
  "Minimax_twice 2 (tree_game 1 [1, 2] (\<lambda>b. (False, None, 0))) [] 2 (Some BLACK) slow_world =
   Some ((1, Some 2), (4, None))"
  by (simp add: Minimax_def time_time_def tree_game_def initial_world_def save_board_def
      undo_def print_def Let_def Minimax_twice_def slow_world_def INFINITY_def
      NINFINITY_def numeral_2_eq_2)

text \<open>
  C1 (amended). Take a position that is not decided for the opponent and a run of
  \<^verbatim>\<open>Minimax\<close> in which no elapsed-time check finds the budget used up. If the run
  returns, every candidate has an AND-node verdict and the outcome is: \<open>(2, m)\<close> for the
  first enumerated move \<open>m\<close> among those of the highest winning score, when some
  candidate has a winning verdict with a positive score; otherwise \<open>(1, m)\<close> for the
  \<^emph>\<open>last\<close> enumerated move \<open>m\<close> whose verdict has score 0, when there is one; otherwise
  \<open>(0, None)\<close>. For a depth of at least 1 the run returns as soon as the bound on nested
  calls is at least the depth.
\<close>

theorem Minimax_tie_break:
  assumes nd: "check_game_end_gomoku G board \<noteq> (True, opposite_color color)"
    and nt: "\<forall>i<length (generate_legal_moves_gomoku G board).
        clock w (ticks w + 1 + i) - clock w (ticks w) < real_of_int (TIME_LIMIT w)"
  shows "(\<forall>r w'. Minimax fuel G board depth color w = Some (r, w') \<longrightarrow>
            (\<exists>vs out. candidates fuel G board depth color (generate_legal_moves_gomoku G board)
                 = map Some vs \<and> r = Inr out \<and>
               Minimax_chosen (zip (generate_legal_moves_gomoku G board) vs) out \<and>
               out = Minimax_expected (zip (generate_legal_moves_gomoku G board) vs))) \<and>
         (1 \<le> depth \<and> nat depth \<le> fuel \<longrightarrow>
            (\<exists>r w'. Minimax fuel G board depth color w = Some (r, w')))"
proof (intro conjI allI impI)
  fix r w'
  let ?w1 = "w\<lparr>ticks := Suc (ticks w)\<rparr>"
  let ?ms = "generate_legal_moves_gomoku G board"
  assume "Minimax fuel G board depth color w = Some (r, w')"
  then have l: "Minimax_loop fuel G ?ms board depth color INFINITY (clock w (ticks w))
      (0, None, 0, NINFINITY) ?w1 = Some (r, w')"
    by (simp add: Minimax_undecided [OF nd])
  have a: "\<forall>i<length ?ms. clock ?w1 (ticks ?w1 + i) - clock w (ticks w) < real_of_int (TIME_LIMIT ?w1)"
    using nt by simp
  from Minimax_loop_completes [OF a l] obtain vs where
    "candidates fuel G board depth color ?ms = map Some vs"
    "r = Inr (Minimax_outcome (0, None, 0, NINFINITY) ?ms vs)" by blast
  with Minimax_outcome_chosen [of ?ms vs NINFINITY]
    Minimax_chosen_expected [of "zip ?ms vs" "Minimax_outcome (0, None, 0, NINFINITY) ?ms vs"]
  show "\<exists>vs out. candidates fuel G board depth color ?ms = map Some vs \<and> r = Inr out \<and>
      Minimax_chosen (zip ?ms vs) out \<and> out = Minimax_expected (zip ?ms vs)" by blast
next
  assume "1 \<le> depth \<and> nat depth \<le> fuel"
  then have "Minimax fuel G board depth color w \<noteq> None" by (simp add: Minimax_total)
  then show "\<exists>r w'. Minimax fuel G board depth color w = Some (r, w')" by auto
qed

text \<open>
  The witness: three winning candidates with the scores 5, 7 and 7; the driver returns the
  second move, the first of the two with score 7.
\<close>

theorem Minimax_tie_break_witness:
  "check_game_end_gomoku
     (tree_game 1 [1, 2, 3] (\<lambda>b. (True, Some BLACK, if b = [1] then 5 else 7))) [] \<noteq>
     (True, opposite_color (Some BLACK)) \<and>
   clock (initial_world :: nat list world) 1 - clock (initial_world :: nat list world) 0 <
     real_of_int (TIME_LIMIT (initial_world :: nat list world)) \<and>
   clock (initial_world :: nat list world) 2 - clock (initial_world :: nat list world) 0 <
     real_of_int (TIME_LIMIT (initial_world :: nat list world)) \<and>
   clock (initial_world :: nat list world) 3 - clock (initial_world :: nat list world) 0 <
     real_of_int (TIME_LIMIT (initial_world :: nat list world)) \<and>
   candidates 2 (tree_game 1 [1, 2, 3] (\<lambda>b. (True, Some BLACK, if b = [1] then 5 else 7))) []
      2 (Some BLACK) [1, 2, 3] =
     [Some (True, Some BLACK, 5), Some (True, Some BLACK, 7), Some (True, Some BLACK, 7)] \<and>
   Minimax_expected
     (zip [1, 2, 3] [(True, Some BLACK, 5), (True, Some BLACK, 7), (True, Some BLACK, 7)]) =
     (2, Some 2) \<and>
   map_option fst
     (Minimax 2 (tree_game 1 [1, 2, 3] (\<lambda>b. (True, Some BLACK, if b = [1] then 5 else 7))) []
        2 (Some BLACK) initial_world) = Some (Inr (2, Some 2))"
  using Minimax_tie_break [of "tree_game 1 [1, 2, 3] (\<lambda>b. (True, Some BLACK, if b = [1] then 5 else 7))"
      "[]" "Some BLACK" initial_world 2 2]
  by (simp add: Minimax_def time_time_def tree_game_def initial_world_def save_board_def
      undo_def print_def Let_def candidates_def AND_verdict_def INFINITY_def
      NINFINITY_def numeral_2_eq_2 Minimax_expected_def proves_win_def score_def)

text \<open>
  Two candidates, neither a win, both with score 0: the driver returns the draw with the
  second move. The test \<^verbatim>\<open>is_win != 2 and points == 0\<close> holds again for the later
  candidate, and \<^verbatim>\<open>best_move\<close> is overwritten.
\<close>

theorem Minimax_tie_break_counterexample:
  "generate_legal_moves_gomoku (tree_game 1 [1, 2] (\<lambda>b. (False, None, 0))) [] = [1, 2] \<and>
   candidates 2 (tree_game 1 [1, 2] (\<lambda>b. (False, None, 0))) [] 2 (Some BLACK) [1, 2] =
     [Some (False, None, 0), Some (False, None, 0)] \<and>
   map_option fst
     (Minimax 2 (tree_game 1 [1, 2] (\<lambda>b. (False, None, 0))) [] 2 (Some BLACK) initial_world) =
     Some (Inr (1, Some 2))"
  by (simp add: Minimax_def time_time_def tree_game_def initial_world_def save_board_def
      undo_def print_def Let_def candidates_def AND_verdict_def INFINITY_def
      NINFINITY_def numeral_2_eq_2)

section \<open>The prover nodes\<close>

text \<open>
  What an AND node at a depth other than 0 returns. (a) When the legal moves are
  \<open>pre @ m # post\<close>, the OR-node result of every move of \<open>pre\<close> is a win for the
  opponent of the node, and the OR-node result of \<open>m\<close> is not, the node returns
  \<open>(False, opponent of the node, score of m)\<close>, the score negated when the colour of the
  result is not the opponent's; the run is the run of the loop over \<open>pre @ [m]\<close> alone,
  so the moves of \<open>post\<close> are not looked at (the results of their subtrees are not even
  assumed to exist). (b) When there are legal moves and the OR-node result of every one
  is a win for the opponent, with the scores \<open>ps\<close>, the score the node returns is the
  least of \<open>ps\<close> as long as that is at most 10000, the value \<^verbatim>\<open>worst_points\<close> starts
  from.
\<close>

lemma AND_node_short_circuit:
  assumes "depth \<noteq> 0"
  shows "(generate_legal_moves_gomoku G board = pre @ m # post \<and>
          (\<forall>m' \<in> set pre. \<exists>p. OR_verdict fuel G (play_move_gomoku G board m' color) (depth - 1)
              (opposite_color color) = Some (True, opposite_color color, p)) \<and>
          OR_verdict fuel G (play_move_gomoku G board m color) (depth - 1) (opposite_color color)
            = Some (win, col, points) \<and>
          \<not> (win \<and> col = opposite_color color) \<longrightarrow>
          (\<exists>w'. MinimaxBooleanAND (Suc fuel) G board depth color alpha beta w =
                  Some (Inr (False, opposite_color color,
                             if col \<noteq> opposite_color color then - points else points), w') \<and>
                MinimaxBooleanAND_loop (MinimaxBooleanOR fuel G) G (pre @ [m]) board depth color
                  alpha beta 10000 w =
                  Some (Inr (False, opposite_color color,
                             if col \<noteq> opposite_color color then - points else points), w'))) \<and>
         (generate_legal_moves_gomoku G board \<noteq> [] \<and>
          map (\<lambda>m. OR_verdict fuel G (play_move_gomoku G board m color) (depth - 1)
                 (opposite_color color)) (generate_legal_moves_gomoku G board) =
            map (\<lambda>p. Some (True, opposite_color color, p)) ps \<longrightarrow>
          (\<exists>w'. MinimaxBooleanAND (Suc fuel) G board depth color alpha beta w =
                  Some (Inr (True, opposite_color color, min 10000 (Min (set ps))), w')))"
proof (intro conjI impI)
  assume a: "generate_legal_moves_gomoku G board = pre @ m # post \<and>
          (\<forall>m' \<in> set pre. \<exists>p. OR_verdict fuel G (play_move_gomoku G board m' color) (depth - 1)
              (opposite_color color) = Some (True, opposite_color color, p)) \<and>
          OR_verdict fuel G (play_move_gomoku G board m color) (depth - 1) (opposite_color color)
            = Some (win, col, points) \<and>
          \<not> (win \<and> col = opposite_color color)"
  then have fail: "\<not> seen_win (opposite_color color) (win, col, points)"
    and sc: "seen_score (opposite_color color) (win, col, points) =
      (if col \<noteq> opposite_color color then - points else points)"
    by (auto simp: seen_win_def seen_score_def)
  from a AND_loop_short_circuit [of pre fuel G board color depth m "(win, col, points)"
      alpha beta 10000 w, OF _ _ fail]
  obtain w' where l: "\<forall>post. MinimaxBooleanAND_loop (MinimaxBooleanOR fuel G) G (pre @ m # post) board
      depth color alpha beta 10000 w =
      Some (Inr (False, opposite_color color,
                 if col \<noteq> opposite_color color then - points else points), w')"
    unfolding sc by blast
  from l have "MinimaxBooleanAND_loop (MinimaxBooleanOR fuel G) G (pre @ [m]) board
      depth color alpha beta 10000 w =
      Some (Inr (False, opposite_color color,
                 if col \<noteq> opposite_color color then - points else points), w')" by blast
  moreover from l a assms have "MinimaxBooleanAND (Suc fuel) G board depth color alpha beta w =
      Some (Inr (False, opposite_color color,
                 if col \<noteq> opposite_color color then - points else points), w')"
    by (simp add: Let_def)
  ultimately show "\<exists>w'. MinimaxBooleanAND (Suc fuel) G board depth color alpha beta w =
                  Some (Inr (False, opposite_color color,
                             if col \<noteq> opposite_color color then - points else points), w') \<and>
                MinimaxBooleanAND_loop (MinimaxBooleanOR fuel G) G (pre @ [m]) board depth color
                  alpha beta 10000 w =
                  Some (Inr (False, opposite_color color,
                             if col \<noteq> opposite_color color then - points else points), w')"
    by blast
next
  assume b: "generate_legal_moves_gomoku G board \<noteq> [] \<and>
          map (\<lambda>m. OR_verdict fuel G (play_move_gomoku G board m color) (depth - 1)
                 (opposite_color color)) (generate_legal_moves_gomoku G board) =
            map (\<lambda>p. Some (True, opposite_color color, p)) ps"
  then have "length (generate_legal_moves_gomoku G board) = length ps"
    by (metis length_map)
  with b have ne: "set ps \<noteq> {}" by auto
  from b AND_loop_all_win [of fuel G board color depth "generate_legal_moves_gomoku G board" ps
      alpha beta 10000 w]
  obtain w' where "MinimaxBooleanAND_loop (MinimaxBooleanOR fuel G) G
      (generate_legal_moves_gomoku G board) board depth color alpha beta 10000 w =
      Some (Inr (True, opposite_color color, Min (insert 10000 (set ps))), w')" by blast
  moreover have "Min (insert 10000 (set ps)) = min 10000 (Min (set ps))"
    using ne by (simp add: Min_insert)
  ultimately show "\<exists>w'. MinimaxBooleanAND (Suc fuel) G board depth color alpha beta w =
                  Some (Inr (True, opposite_color color, min 10000 (Min (set ps))), w')"
    using b assms by (simp add: Let_def)
qed

text \<open>
  For example: three moves, the first a win with score 3, the second not a win, with
  score -4: the node returns \<open>(False, BLACK, -4)\<close>; and two moves, both wins, with the
  scores 3 and 2: the node returns \<open>(True, BLACK, 2)\<close>.
\<close>

lemma AND_node_short_circuit_example:
  "OR_verdict 1
     (tree_game 1 [1, 2, 3]
        (\<lambda>b. if b = [1] then (True, Some BLACK, 3) else (False, Some BLACK, - 4)))
     [1] 0 (Some BLACK) = Some (True, Some BLACK, 3) \<and>
   OR_verdict 1
     (tree_game 1 [1, 2, 3]
        (\<lambda>b. if b = [1] then (True, Some BLACK, 3) else (False, Some BLACK, - 4)))
     [2] 0 (Some BLACK) = Some (False, Some BLACK, - 4) \<and>
   map (\<lambda>m. OR_verdict 1 (tree_game 1 [1, 2] (\<lambda>b. (True, Some BLACK, if b = [1] then 3 else 2)))
              [m] 0 (Some BLACK)) [1, 2] =
     map (\<lambda>p. Some (True, Some BLACK, p)) [3, 2] \<and>
   map_option fst
     (MinimaxBooleanAND 2
        (tree_game 1 [1, 2, 3]
           (\<lambda>b. if b = [1] then (True, Some BLACK, 3) else (False, Some BLACK, - 4)))
        [] 1 (Some WHITE) NINFINITY INFINITY initial_world) =
     Some (Inr (False, Some BLACK, - 4)) \<and>
   map_option fst
     (MinimaxBooleanAND 2
        (tree_game 1 [1, 2] (\<lambda>b. (True, Some BLACK, if b = [1] then 3 else 2)))
        [] 1 (Some WHITE) NINFINITY INFINITY initial_world) =
     Some (Inr (True, Some BLACK, 2))"
  using AND_node_short_circuit [where depth = 1 and fuel = 1 and board = "[]" and color = "Some WHITE"
      and G = "tree_game 1 [1, 2, 3]
           (\<lambda>b. if b = [1] then (True, Some BLACK, 3) else (False, Some BLACK, - 4))"
      and pre = "[1]" and m = 2 and post = "[3]" and win = False and col = "Some BLACK"
      and points = "- 4" and alpha = NINFINITY and beta = INFINITY and w = initial_world]
    AND_node_short_circuit [where depth = 1 and fuel = 1 and board = "[]" and color = "Some WHITE"
      and G = "tree_game 1 [1, 2] (\<lambda>b. (True, Some BLACK, if b = [1] then 3 else 2))"
      and ps = "[3, 2]" and alpha = NINFINITY and beta = INFINITY and w = initial_world]
  by (simp add: Minimax_def time_time_def tree_game_def initial_world_def save_board_def
      undo_def print_def Let_def NINFINITY_def INFINITY_def numeral_2_eq_2
      OR_verdict_def)





end
